theory Spec2Isabelle
  imports Main "HOL-Library.Word"
begin

unbundle bit_operations_syntax

section \<open>Run-time faults of the Go code\<close>

text \<open>
  A Go run-time panic (or an unrecoverable run-time fatal error) ends the call without
  a result.  Every function of the embedding that can fault returns \<open>fault + 'a\<close>, with
  \<open>Inl\<close> for the fault.
\<close>

datatype fault =
    IndexOutOfRange      \<comment> \<open>index out of range on a slice\<close>
  | SliceBounds          \<comment> \<open>slice bounds out of range\<close>
  | NilDereference       \<comment> \<open>nil pointer dereference\<close>
  | DivideByZero         \<comment> \<open>integer divide by zero\<close>
  | MakeSliceRange       \<comment> \<open>makeslice: len or cap out of range\<close>
  | UnlockOfUnlocked     \<comment> \<open>fatal error: sync: Unlock of unlocked (RW)Mutex\<close>
  | Deadlock             \<comment> \<open>Lock of a mutex that is never released\<close>

type_synonym byte = "8 word"
type_synonym uint64 = "64 word"

section \<open>cuckootable/cuckootable.go\<close>

subsection \<open>Data\<close>

text \<open>
  \<open>Entry.Data\<close> is a value of the interface \<open>Comparable\<close>; its method \<open>Equals\<close> is
  supplied by the user of the package and is the parameter \<open>deq\<close> below (receiver
  first).  Go's \<open>int\<close> is modelled by \<open>int\<close>: the table code only compares bucket
  indices and counts slots upwards below \<open>depth\<close>, so no overflow can occur.
\<close>

record 'a Entry =
  Bucket1 :: int
  Bucket2 :: int
  Data :: 'a

text \<open>A slot of \<open>entries\<close> is a pointer: \<open>None\<close> is \<open>nil\<close>.\<close>

record 'a Bucket =
  entries :: "'a Entry option list"
  filled :: "bool list"

record 'a Table =
  numBuckets :: int
  depth :: int
  buckets :: "'a Bucket list"

definition Equals :: "('a \<Rightarrow> 'a \<Rightarrow> bool) \<Rightarrow> 'a Entry \<Rightarrow> 'a Entry \<Rightarrow> bool" where
  "Equals deq e other =
     (if deq (Data e) (Data other) \<and>
         ((Bucket1 e = Bucket1 other \<and> Bucket2 e = Bucket2 other) \<or>
          (Bucket1 e = Bucket2 other \<and> Bucket2 e = Bucket1 other))
      then True else False)"

subsection \<open>NewTable\<close>

definition NewTable :: "int \<Rightarrow> int \<Rightarrow> fault + 'a Table" where
  "NewTable nb d =
     (if nb < 0 then Inl MakeSliceRange
      else if 0 < nb \<and> d < 0 then Inl MakeSliceRange
      else Inr \<lparr> numBuckets = nb, depth = d,
                 buckets = replicate (nat nb)
                   \<lparr> entries = replicate (nat d) None, filled = replicate (nat d) False \<rparr> \<rparr>)"

subsection \<open>isInBucket and Contains\<close>

text \<open>
  The loop \<open>for i := 0; i < t.depth; i++\<close> of \<open>isInBucket\<close>, from index \<open>i\<close> on.
  \<open>bucket.filled[i]\<close> and \<open>bucket.entries[i]\<close> fault out of range, and calling
  \<open>Equals\<close> on a nil entry faults.
\<close>

function isInBucket_loop ::
  "('a \<Rightarrow> 'a \<Rightarrow> bool) \<Rightarrow> int \<Rightarrow> 'a Bucket \<Rightarrow> 'a Entry \<Rightarrow> int \<Rightarrow> fault + bool" where
  "isInBucket_loop deq d bucket target i =
     (if i < d then
        (if i < 0 \<or> int (length (filled bucket)) \<le> i then Inl IndexOutOfRange
         else if filled bucket ! nat i then
           (if int (length (entries bucket)) \<le> i then Inl IndexOutOfRange
            else case entries bucket ! nat i of
                   None \<Rightarrow> Inl NilDereference
                 | Some x \<Rightarrow>
                     if Equals deq x target then Inr True
                     else isInBucket_loop deq d bucket target (i + 1))
         else isInBucket_loop deq d bucket target (i + 1))
      else Inr False)"
  by pat_completeness auto
termination
  by (relation "measure (\<lambda>(deq, d, bucket, target, i). nat (d - i))") auto

declare isInBucket_loop.simps [simp del]

definition isInBucket ::
  "('a \<Rightarrow> 'a \<Rightarrow> bool) \<Rightarrow> 'a Table \<Rightarrow> int \<Rightarrow> 'a Entry \<Rightarrow> fault + bool" where
  "isInBucket deq t bucketIndex target =
     (if bucketIndex < 0 \<or> int (length (buckets t)) \<le> bucketIndex then Inl IndexOutOfRange
      else isInBucket_loop deq (depth t) (buckets t ! nat bucketIndex) target 0)"

text \<open>
  \<open>result = result || t.isInBucket(...)\<close>: the right operand is evaluated only when
  \<open>result\<close> is false.
\<close>

definition Contains :: "('a \<Rightarrow> 'a \<Rightarrow> bool) \<Rightarrow> 'a Table \<Rightarrow> 'a Entry \<Rightarrow> fault + bool" where
  "Contains deq t e =
     (case (if Bucket1 e < numBuckets t then isInBucket deq t (Bucket1 e) e else Inr False) of
        Inl f \<Rightarrow> Inl f
      | Inr result \<Rightarrow>
          if Bucket2 e < numBuckets t then
            (if result then Inr True else isInBucket deq t (Bucket2 e) e)
          else Inr result)"

subsection \<open>tryInsertToBucket, Insert, Remove\<close>

text \<open>\<open>for i, filled := range bucket.filled\<close>: the first index whose cell is empty.\<close>

fun first_empty :: "bool list \<Rightarrow> nat \<Rightarrow> nat option" where
  "first_empty [] i = None"
| "first_empty (f # fs) i = (if \<not> f then Some i else first_empty fs (Suc i))"

definition tryInsertToBucket ::
  "'a Table \<Rightarrow> int \<Rightarrow> 'a Entry \<Rightarrow> fault + (bool \<times> 'a Table)" where
  "tryInsertToBucket t bucketIndex target =
     (if Bucket1 target \<noteq> bucketIndex \<and> Bucket2 target \<noteq> bucketIndex then Inr (False, t)
      else if bucketIndex < 0 \<or> int (length (buckets t)) \<le> bucketIndex then Inl IndexOutOfRange
      else
        let bucket = buckets t ! nat bucketIndex in
        case first_empty (filled bucket) 0 of
          None \<Rightarrow> Inr (False, t)
        | Some i \<Rightarrow>
            if length (entries bucket) \<le> i then Inl IndexOutOfRange
            else Inr (True,
              t\<lparr> buckets := (buckets t)[nat bucketIndex :=
                    bucket\<lparr> filled := (filled bucket)[i := True],
                            entries := (entries bucket)[i := Some target] \<rparr>] \<rparr>))"

text \<open>
  \<open>Insert\<close> ends in \<open>// @todo Evict\<close> with no return statement: when both buckets are
  full the source gives no result, which is \<open>None\<close> here.
\<close>

definition Insert :: "'a Table \<Rightarrow> 'a Entry \<Rightarrow> fault + (bool option \<times> 'a Table)" where
  "Insert t e =
     (case tryInsertToBucket t (Bucket1 e) e of
        Inl f \<Rightarrow> Inl f
      | Inr (ok, t1) \<Rightarrow>
          if ok then Inr (Some True, t1)
          else (case tryInsertToBucket t1 (Bucket2 e) e of
                  Inl f \<Rightarrow> Inl f
                | Inr (ok2, t2) \<Rightarrow> if ok2 then Inr (Some True, t2) else Inr (None, t2)))"

text \<open>
  The body of \<open>removeFromBucket\<close> is empty in the source: it touches nothing and has no
  return statement (\<open>None\<close>).  \<open>Remove\<close> calls it for both buckets and discards the
  results.
\<close>

definition removeFromBucket ::
  "'a Table \<Rightarrow> int \<Rightarrow> 'a Entry \<Rightarrow> bool option \<times> 'a Table" where
  "removeFromBucket t bucketIndex target = (None, t)"

definition Remove :: "'a Table \<Rightarrow> 'a Entry \<Rightarrow> 'a Table" where
  "Remove t target =
     (let t1 = snd (removeFromBucket t (Bucket1 target) target);
          t2 = snd (removeFromBucket t1 (Bucket2 target) target)
      in t2)"

subsection \<open>The representation invariant of a table\<close>

text \<open>
  The fields of \<open>Table\<close> and \<open>Bucket\<close> are private to the package, so every table is
  built by \<open>NewTable\<close> and changed only by the functions above.  Such a table has
  \<open>numBuckets\<close> buckets of \<open>depth\<close> cells each, and a filled cell holds an entry.
\<close>

definition bucket_ok :: "int \<Rightarrow> 'a Bucket \<Rightarrow> bool" where
  "bucket_ok d b \<longleftrightarrow>
     length (filled b) = nat d \<and> length (entries b) = nat d \<and>
     (\<forall>i < nat d. filled b ! i \<longrightarrow> entries b ! i \<noteq> None)"

definition table_ok :: "'a Table \<Rightarrow> bool" where
  "table_ok t \<longleftrightarrow>
     0 \<le> numBuckets t \<and> length (buckets t) = nat (numBuckets t) \<and>
     (\<forall>b \<in> set (buckets t). bucket_ok (depth t) b)"

section \<open>server/replica/server.go\<close>

subsection \<open>Data\<close>

text \<open>
  The fields of \<open>common.Config\<close> that the replica and the client handle read; the code
  compares and multiplies them as \<open>uint64\<close>, so they are 64-bit words and every
  product below wraps around as in Go.
\<close>

record Config =
  NumBuckets :: uint64
  NumShardsPerGroup :: uint64
  NumBucketsPerShard :: uint64
  BucketDepth :: uint64
  DataSize :: uint64

record WriteArgs =
  ID :: uint64
  WData :: "byte list"

record WriteReply =
  Err :: string

text \<open>
  The reply of the layout coordinator.  Its error code is the enumeration of the
  interface description: ok, invalid snapshot, invalid index, invalid split factor.
\<close>

datatype LayoutErr = OK | ErrorInvalidSnapshotID | ErrorInvalidIndex | ErrorInvalidNumSplit

record GetLayoutArgs =
  ArgSnapshotID :: uint64
  Index :: uint64
  NumSplit :: uint64

record GetLayoutReply =
  LErr :: LayoutErr
  ReplySnapshotID :: uint64
  Layout :: "uint64 list"

text \<open>
  The state of a replica.  \<open>lock\<close> and \<open>msgLock\<close> say whether the mutex is held;
  \<open>messages\<close> is the Go map from message ID to the stored \<open>WriteArgs\<close>; a shard is
  whatever the backing's constructor returns, \<open>None\<close> being a nil entry of the slice.
  The logger, the RPC listener and the RPC client object are not part of the state:
  the layout coordinator reached through the client is the parameter \<open>rpc\<close> of
  \<open>GetLayout\<close> below.
\<close>

record 'shard Server =
  name :: string
  config :: Config
  group :: uint64
  pirBacking :: string
  lock :: bool
  snapshotID :: uint64
  layoutAddr :: string
  shards :: "'shard option list"
  msgLock :: bool
  messages :: "uint64 \<rightharpoonup> WriteArgs"

subsection \<open>Mutexes, in a run of one goroutine\<close>

text \<open>
  \<open>Lock\<close> on a mutex that is held does not return while nobody releases it, and
  \<open>Unlock\<close> on a mutex that is not held is a fatal error of the Go run time (for
  \<open>sync.Mutex\<close> and for \<open>sync.RWMutex\<close> alike).  \<open>RLock\<close> waits for a writer in the same
  way, and an \<open>RLock\<close>/\<open>RUnlock\<close> pair with nothing in between leaves the lock as
  it was.
\<close>

definition mutex_Lock :: "bool \<Rightarrow> fault + bool" where
  "mutex_Lock held = (if held then Inl Deadlock else Inr True)"

definition mutex_Unlock :: "bool \<Rightarrow> fault + bool" where
  "mutex_Unlock held = (if held then Inr False else Inl UnlockOfUnlocked)"

definition mutex_RLock :: "bool \<Rightarrow> fault + bool" where
  "mutex_RLock held = (if held then Inl Deadlock else Inr False)"

subsection \<open>NewServer and Write\<close>

definition NewServer :: "string \<Rightarrow> Config \<Rightarrow> uint64 \<Rightarrow> string \<Rightarrow> 'shard Server" where
  "NewServer nm cfg grp backing =
     \<lparr> name = nm, config = cfg, group = grp, pirBacking = backing,
       lock = False, snapshotID = 0, layoutAddr = [],
       shards = replicate (unat (NumShardsPerGroup cfg)) None,
       msgLock = False, messages = Map.empty \<rparr>"

text \<open>
  A stateful method returns its outcome (a fault, or the value returned) together with
  the state of the replica when the call ends.

  \<open>Write\<close>: \<open>uint64(len(args.Data)) != s.config.DataSize\<close>.  A Go length is below
  \<open>2^63\<close>, so the conversion is exact and the test compares the length with the value
  of \<open>DataSize\<close>.
\<close>

definition Write :: "'shard Server \<Rightarrow> WriteArgs \<Rightarrow> (fault + WriteReply) \<times> 'shard Server" where
  "Write s args =
     (if length (WData args) \<noteq> unat (DataSize (config s))
      then (Inr \<lparr> Err = ''Invalid data size'' \<rparr>, s)
      else case mutex_Lock (msgLock s) of
             Inl f \<Rightarrow> (Inl f, s)
           | Inr l \<Rightarrow>
               let s1 = s\<lparr> msgLock := l \<rparr>;
                   s2 = s1\<lparr> messages := (messages s1)(ID args \<mapsto> args) \<rparr>
               in case mutex_Unlock (msgLock s2) of
                    Inl f \<Rightarrow> (Inl f, s2)
                  | Inr l' \<Rightarrow> (Inr \<lparr> Err = [] \<rparr>, s2\<lparr> msgLock := l' \<rparr>))"

subsection \<open>ApplyLayout\<close>

text \<open>
  The inner loop \<open>for j := uint64(0); j < itemsPerShard; j++\<close> for shard \<open>i\<close>, from
  \<open>j\<close> on, with the shard's buffer \<open>data\<close>.  The result \<open>Inr None\<close> is the early exit at
  a message ID that the buffer of messages lacks.

  \<open>layout[layoutIdx]\<close> faults out of range.  \<open>data\<close> comes from
  \<open>make([]byte, shardSize)\<close>, so its capacity is its length, and
  \<open>data[dataIdx:dataIdx+config.DataSize]\<close> faults unless
  \<open>dataIdx \<le> dataIdx + DataSize \<le> len(data)\<close> (the sum wraps around).
  \<open>msg.Data[:config.DataSize]\<close> faults when \<open>DataSize\<close> exceeds the capacity of
  \<open>msg.Data\<close>, which the model takes to be its length.  \<open>copy\<close> then overwrites the
  \<open>DataSize\<close> bytes at \<open>dataIdx\<close>.
\<close>

function ApplyLayout_items ::
  "(uint64 \<rightharpoonup> WriteArgs) \<Rightarrow> Config \<Rightarrow> uint64 list \<Rightarrow> uint64 \<Rightarrow> uint64 \<Rightarrow> uint64 \<Rightarrow>
   byte list \<Rightarrow> fault + byte list option" where
  "ApplyLayout_items msgs cfg layout i itemsPerShard j data =
     (if j < itemsPerShard then
        let layoutIdx = i * itemsPerShard + j;
            dataIdx = j * DataSize cfg
        in if length layout \<le> unat layoutIdx then Inl IndexOutOfRange
           else case msgs (layout ! unat layoutIdx) of
                  None \<Rightarrow> Inr None
                | Some msg \<Rightarrow>
                    if dataIdx + DataSize cfg < dataIdx \<or>
                       length data < unat (dataIdx + DataSize cfg) then Inl SliceBounds
                    else if length (WData msg) < unat (DataSize cfg) then Inl SliceBounds
                    else ApplyLayout_items msgs cfg layout i itemsPerShard (j + 1)
                           (take (unat dataIdx) data @
                            take (unat (DataSize cfg)) (WData msg) @
                            drop (unat (dataIdx + DataSize cfg)) data)
      else Inr (Some data))"
  by pat_completeness auto
termination
proof (relation "measure (\<lambda>(msgs, cfg, layout, i, n, j, data). unat n - unat j)")
  show "wf (measure (\<lambda>(msgs, cfg, layout, i, n, j, data). unat n - unat j))"
    by simp
next
  fix msgs :: "uint64 \<rightharpoonup> WriteArgs" and cfg :: Config and layout :: "uint64 list"
    and i n j :: uint64 and data :: "byte list" and x :: uint64 and y :: uint64
    and msg :: WriteArgs
  assume "j < n"
  then have "unat n - unat (j + 1) < unat n - unat j"
    by unat_arith
  then show "((msgs, cfg, layout, i, n, j + 1,
      take (unat y) data @ take (unat (DataSize cfg)) (WData msg) @
      drop (unat (y + DataSize cfg)) data),
      (msgs, cfg, layout, i, n, j, data))
    \<in> measure (\<lambda>(msgs, cfg, layout, i, n, j, data). unat n - unat j)"
    by simp
qed

declare ApplyLayout_items.simps [simp del]

text \<open>
  The outer loop \<open>for i := uint64(0); i < config.NumShardsPerGroup; i++\<close>, from \<open>i\<close>
  on.  Each round allocates the shard's buffer (\<open>make([]byte, shardSize)\<close>, zeroed),
  fills it, and stores \<open>NewShard(bucketSize, data, pirBacking)\<close> in \<open>shards[i]\<close>.
  \<open>NewShard\<close> is the constructor that \<open>pirinterface.GetBacking\<close> returns for the
  backing; it is a parameter (the backing is taken to be known, so that there is a
  constructor).  Allocation is taken to succeed whatever the size.
\<close>

function ApplyLayout_shards ::
  "(int \<Rightarrow> byte list \<Rightarrow> string \<Rightarrow> 'shard) \<Rightarrow> (uint64 \<rightharpoonup> WriteArgs) \<Rightarrow> Config \<Rightarrow> string \<Rightarrow>
   uint64 list \<Rightarrow> uint64 \<Rightarrow> 'shard option list \<Rightarrow> fault + 'shard option list option" where
  "ApplyLayout_shards NewShard msgs cfg backing layout i shs =
     (if i < NumShardsPerGroup cfg then
        let bucketSize = sint (BucketDepth cfg * DataSize cfg);
            itemsPerShard = NumBucketsPerShard cfg * BucketDepth cfg;
            shardSize = itemsPerShard * DataSize cfg
        in case ApplyLayout_items msgs cfg layout i itemsPerShard 0
                  (replicate (unat shardSize) 0) of
             Inl f \<Rightarrow> Inl f
           | Inr None \<Rightarrow> Inr None
           | Inr (Some data) \<Rightarrow>
               if length shs \<le> unat i then Inl IndexOutOfRange
               else ApplyLayout_shards NewShard msgs cfg backing layout (i + 1)
                      (shs[unat i := Some (NewShard bucketSize data backing)])
      else Inr (Some shs))"
  by pat_completeness auto
termination
proof (relation "measure (\<lambda>(NewShard, msgs, cfg, backing, layout, i, shs).
                    unat (NumShardsPerGroup cfg) - unat i)")
  show "wf (measure (\<lambda>(NewShard, msgs, cfg, backing, layout, i, shs).
                    unat (NumShardsPerGroup cfg) - unat i))"
    by simp
next
  fix NewShard :: "int \<Rightarrow> byte list \<Rightarrow> string \<Rightarrow> 'shard"
    and msgs :: "uint64 \<rightharpoonup> WriteArgs" and cfg :: Config and backing :: string
    and layout :: "uint64 list" and i :: uint64 and shs :: "'shard option list"
    and bs :: int and data :: "byte list"
  assume "i < NumShardsPerGroup cfg"
  then have "unat (NumShardsPerGroup cfg) - unat (i + 1) < unat (NumShardsPerGroup cfg) - unat i"
    by unat_arith
  then show "((NewShard, msgs, cfg, backing, layout, i + 1,
       shs[unat i := Some (NewShard bs data backing)]),
      (NewShard, msgs, cfg, backing, layout, i, shs))
    \<in> measure (\<lambda>(NewShard, msgs, cfg, backing, layout, i, shs).
                    unat (NumShardsPerGroup cfg) - unat i)"
    by simp
qed

declare ApplyLayout_shards.simps [simp del]

text \<open>
  \<open>ApplyLayout\<close> takes \<open>msgLock\<close>, builds the shards and releases \<open>msgLock\<close>.  On a
  missing message ID it releases \<open>s.lock\<close> instead (line 244 of the source:
  \<open>s.lock.Unlock()\<close>) and returns nil, which is \<open>Inr None\<close>; \<open>msgLock\<close> stays held.
  The garbage collection of old messages is a \<open>@todo\<close> comment: the messages are not
  touched.
\<close>

definition ApplyLayout ::
  "(int \<Rightarrow> byte list \<Rightarrow> string \<Rightarrow> 'shard) \<Rightarrow> 'shard Server \<Rightarrow> Config \<Rightarrow> string \<Rightarrow> uint64 list \<Rightarrow>
   (fault + 'shard option list option) \<times> 'shard Server" where
  "ApplyLayout NewShard s cfg backing layout =
     (case mutex_Lock (msgLock s) of
        Inl f \<Rightarrow> (Inl f, s)
      | Inr l \<Rightarrow>
          let s1 = s\<lparr> msgLock := l \<rparr> in
          case ApplyLayout_shards NewShard (messages s1) cfg backing layout 0
                 (replicate (unat (NumShardsPerGroup cfg)) None) of
            Inl f \<Rightarrow> (Inl f, s1)
          | Inr None \<Rightarrow>
              (case mutex_Unlock (lock s1) of
                 Inl f \<Rightarrow> (Inl f, s1)
               | Inr l' \<Rightarrow> (Inr None, s1\<lparr> lock := l' \<rparr>))
          | Inr (Some shs) \<Rightarrow>
              (case mutex_Unlock (msgLock s1) of
                 Inl f \<Rightarrow> (Inl f, s1)
               | Inr l' \<Rightarrow> (Inr (Some shs), s1\<lparr> msgLock := l' \<rparr>)))"

subsection \<open>SetLayoutAddr and GetLayout\<close>

text \<open>
  \<open>SetLayoutAddr\<close> reads \<open>layoutAddr\<close> under the read lock and, when the address is
  new, replaces address and client under the write lock.
\<close>

definition SetLayoutAddr :: "'shard Server \<Rightarrow> string \<Rightarrow> (fault + unit) \<times> 'shard Server" where
  "SetLayoutAddr s addr =
     (case mutex_RLock (lock s) of
        Inl f \<Rightarrow> (Inl f, s)
      | Inr _ \<Rightarrow>
          if layoutAddr s = addr then (Inr (), s)
          else case mutex_Lock (lock s) of
                 Inl f \<Rightarrow> (Inl f, s)
               | Inr l \<Rightarrow>
                   let s1 = s\<lparr> lock := l, layoutAddr := addr \<rparr> in
                   case mutex_Unlock (lock s1) of
                     Inl f \<Rightarrow> (Inl f, s1)
                   | Inr l' \<Rightarrow> (Inr (), s1\<lparr> lock := l' \<rparr>))"

text \<open>
  The RPC to the layout coordinator is the parameter \<open>rpc\<close>: for the address of the
  client and the arguments sent, it gives the transport error (\<open>None\<close> is nil) and the
  reply.  \<open>NumBuckets / layoutSize\<close> is an integer division: it faults when
  \<open>layoutSize\<close> is 0.

  The value returned is the goroutine that the call starts, if any:
  \<open>go s.GetLayout(addr, reply.SnapshotID)\<close> after an invalid-snapshot reply.  It is
  not run here.
\<close>

definition GetLayout ::
  "(string \<Rightarrow> GetLayoutArgs \<Rightarrow> string option \<times> GetLayoutReply) \<Rightarrow>
   (int \<Rightarrow> byte list \<Rightarrow> string \<Rightarrow> 'shard) \<Rightarrow> 'shard Server \<Rightarrow> string \<Rightarrow> uint64 \<Rightarrow>
   (fault + (string \<times> uint64) option) \<times> 'shard Server" where
  "GetLayout rpc NewShard s addr snapID =
     (case SetLayoutAddr s addr of
        (Inl f, s0) \<Rightarrow> (Inl f, s0)
      | (Inr _, s0) \<Rightarrow>
     (case mutex_Lock (lock s0) of
        Inl f \<Rightarrow> (Inl f, s0)
      | Inr l \<Rightarrow>
          let s1 = s0\<lparr> lock := l \<rparr>;
              layoutSize = NumBucketsPerShard (config s1) * NumShardsPerGroup (config s1)
          in if layoutSize = 0 then (Inl DivideByZero, s1)
             else
               let args = \<lparr> ArgSnapshotID = snapID, Index = group s1,
                            NumSplit = NumBuckets (config s1) div layoutSize \<rparr>;
                   (err, reply) = rpc (layoutAddr s1) args
               in if err \<noteq> None then
                    (case mutex_Unlock (lock s1) of
                       Inl f \<Rightarrow> (Inl f, s1)
                     | Inr l' \<Rightarrow> (Inr None, s1\<lparr> lock := l' \<rparr>))
                  else if LErr reply = ErrorInvalidSnapshotID then
                    (case mutex_Unlock (lock s1) of
                       Inl f \<Rightarrow> (Inl f, s1)
                     | Inr l' \<Rightarrow> (Inr (Some (addr, ReplySnapshotID reply)), s1\<lparr> lock := l' \<rparr>))
                  else if LErr reply = ErrorInvalidIndex then
                    (case mutex_Unlock (lock s1) of
                       Inl f \<Rightarrow> (Inl f, s1)
                     | Inr l' \<Rightarrow> (Inr None, s1\<lparr> lock := l' \<rparr>))
                  else if LErr reply = ErrorInvalidNumSplit then
                    (case mutex_Unlock (lock s1) of
                       Inl f \<Rightarrow> (Inl f, s1)
                     | Inr l' \<Rightarrow> (Inr None, s1\<lparr> lock := l' \<rparr>))
                  else
                    (case ApplyLayout NewShard s1 (config s1) (pirBacking s1) (Layout reply) of
                       (Inl f, s2) \<Rightarrow> (Inl f, s2)
                     | (Inr shs, s2) \<Rightarrow>
                         let s3 = (case shs of
                                     None \<Rightarrow> s2
                                   | Some shs' \<Rightarrow> s2\<lparr> snapshotID := snapID, shards := shs' \<rparr>)
                         in case mutex_Unlock (lock s3) of
                              Inl f \<Rightarrow> (Inl f, s3)
                            | Inr l' \<Rightarrow> (Inr None, s3\<lparr> lock := l' \<rparr>))))"





definition stored_by_Write :: "'shard Server \<Rightarrow> bool" where
  "stored_by_Write s \<longleftrightarrow>
     (\<forall>k msg. messages s k = Some msg \<longrightarrow> length (WData msg) = unat (DataSize (config s)))"


section \<open>libtalek: the topic handle\<close>

subsection \<open>Data\<close>

text \<open>
  \<open>common.PirArgs\<close>, \<open>common.ReadArgs\<close> and \<open>common.ReadReply\<close>, with the fields the
  handle uses.  A byte slice is the list of its bytes; nil is the empty list where the
  code only writes or measures it.  \<open>RSpare\<close> holds the bytes of the backing array of
  \<open>reply.Data\<close> between its length and its capacity: a slice expression may reach them.
\<close>

record PirArgs =
  RequestVector :: "byte list"
  PadSeed :: "byte list"

record ReadArgs =
  TD :: "PirArgs list"

record ReadReply =
  RData :: "byte list"
  RSpare :: "byte list"

text \<open>
  \<open>Handle\<close>: \<open>drbg\<close> is the state of the generator, \<open>Seed1\<close> and \<open>Seed2\<close> are values of
  \<open>drbg.Seed\<close>, the two keys are pointers (\<open>None\<close> is nil).  The generator, the seeds
  and the \<open>Config\<close> of a client configuration are taken to be there (not nil).  The
  channel \<open>updates\<close> is used by \<open>OnResponse\<close> only and is left out.
\<close>

record ('d, 'seed) Handle =
  drbg :: 'd
  Seed1 :: 'seed
  Seed2 :: 'seed
  SharedSecret :: "byte list option"
  SigningPublicKey :: "byte list option"
  Seqno :: uint64

record 'td ClientConfig =
  Config :: Config
  TrustDomains :: "'td list"

text \<open>An error value made by \<open>errors.New\<close>, known by its message.\<close>

datatype error = errors_New string

subsection \<open>The collaborators outside the repository\<close>

text \<open>
  \<open>binary.PutUvarint\<close> of Go's standard library: seven bits per byte, least
  significant group first, the top bit set on every byte but the last.  It returns the
  number of bytes written (the handle discards it) and faults when the buffer is too
  short.
\<close>

function PutUvarint_loop :: "byte list \<Rightarrow> nat \<Rightarrow> uint64 \<Rightarrow> fault + (byte list \<times> nat)" where
  "PutUvarint_loop buf i x =
     (if 0x80 \<le> x then
        (if length buf \<le> i then Inl IndexOutOfRange
         else PutUvarint_loop (buf[i := ucast x OR 0x80]) (i + 1) (drop_bit 7 x))
      else if length buf \<le> i then Inl IndexOutOfRange
      else Inr (buf[i := ucast x], i + 1))"
  by pat_completeness auto
termination
proof (relation "measure (\<lambda>(buf, i, x). unat x)")
  show "wf (measure (\<lambda>(buf, i, x). unat x))" by simp
next
  fix buf :: "byte list" and i :: nat and x :: uint64
  assume "0x80 \<le> x"
  then have "128 \<le> unat x" by (simp add: word_le_nat_alt)
  then have "unat x div 128 < unat x" by simp
  then have "unat (drop_bit 7 x) < unat x" by (simp add: drop_bit_eq_div unat_div)
  then show "((buf[i := ucast x OR 0x80], i + 1, drop_bit 7 x), (buf, i, x))
               \<in> measure (\<lambda>(buf, i, x). unat x)"
    by simp
qed

declare PutUvarint_loop.simps [simp del]

definition PutUvarint :: "byte list \<Rightarrow> uint64 \<Rightarrow> fault + (byte list \<times> nat)" where
  "PutUvarint buf x = PutUvarint_loop buf 0 x"

text \<open>
  A function that fills or rewrites a slice in place cannot change its length:
  \<open>in_place old new\<close> is \<open>old\<close> overwritten from the front by \<open>new\<close>.

  \<open>(*HashDrbg).FillBytes\<close> is the parameter \<open>gen\<close>: from the state of the generator and
  a number of bytes it gives the bytes and the next state.
\<close>

definition in_place :: "byte list \<Rightarrow> byte list \<Rightarrow> byte list" where
  "in_place old new = take (length old) new @ drop (length new) old"

definition FillBytes :: "('d \<Rightarrow> nat \<Rightarrow> byte list \<times> 'd) \<Rightarrow> 'd \<Rightarrow> byte list \<Rightarrow> byte list \<times> 'd" where
  "FillBytes gen d b = (case gen d (length b) of (r, d') \<Rightarrow> (in_place b r, d'))"

text \<open>\<open>ed25519.SignatureSize\<close> and \<open>box.Overhead\<close>.\<close>

definition SignatureSize :: int where
  "SignatureSize = 64"

definition Overhead :: int where
  "Overhead = 16"

subsection \<open>nextBuckets\<close>

text \<open>
  \<open>KeyUint128\<close> (of \<open>drbg.Seed\<close>) and \<open>siphash.Hash\<close> are parameters.  \<open>%\<close> faults
  when \<open>NumBuckets\<close> is 0.
\<close>

definition seqNoBytes :: "uint64 \<Rightarrow> fault + byte list" where
  "seqNoBytes seqno =
     (case PutUvarint (replicate 24 0) seqno of
        Inl f \<Rightarrow> Inl f
      | Inr (buf, n) \<Rightarrow> Inr buf)"

definition nextBuckets ::
  "('seed \<Rightarrow> uint64 \<times> uint64) \<Rightarrow> (uint64 \<Rightarrow> uint64 \<Rightarrow> byte list \<Rightarrow> uint64) \<Rightarrow>
   ('d, 'seed) Handle \<Rightarrow> Config \<Rightarrow> fault + (uint64 \<times> uint64)" where
  "nextBuckets KeyUint128 siphash h conf =
     (case seqNoBytes (Seqno h) of
        Inl f \<Rightarrow> Inl f
      | Inr buf \<Rightarrow>
          let (k0, k1) = KeyUint128 (Seed1 h);
              b1 = siphash k0 k1 buf;
              (k0', k1') = KeyUint128 (Seed2 h);
              b2 = siphash k0' k1' buf
          in if NumBuckets conf = 0 then Inl DivideByZero
             else Inr (b1 mod NumBuckets conf, b2 mod NumBuckets conf))"

subsection \<open>generatePoll\<close>

text \<open>
  The innermost loop
  \<open>for k := 0; k < len(TD[j].RequestVector); k++ { TD[0].RequestVector[k] ^= TD[j].RequestVector[k] }\<close>
  from \<open>k\<close> on: \<open>v0\<close> is the vector of the first trust domain, \<open>r\<close> the one of domain
  \<open>j\<close>.
\<close>

function xor_into :: "byte list \<Rightarrow> byte list \<Rightarrow> nat \<Rightarrow> fault + byte list" where
  "xor_into v0 r k =
     (if k < length r then
        (if length v0 \<le> k then Inl IndexOutOfRange
         else xor_into (v0[k := v0 ! k XOR r ! k]) r (k + 1))
      else Inr v0)"
  by pat_completeness auto
termination
  by (relation "measure (\<lambda>(v0, r, k). length r - k)") auto

declare xor_into.simps [simp del]

text \<open>
  The loop \<open>for j := 1; j < num; j++\<close> over the trust domains after the first, from
  \<open>j\<close> on: a request vector of \<open>n\<close> bytes and a pad seed are filled from the generator,
  and the vector is XORed into the first domain's.  \<open>num\<close> is the length of \<open>td\<close>.
\<close>

function poll_domains ::
  "('d \<Rightarrow> nat \<Rightarrow> byte list \<times> 'd) \<Rightarrow> nat \<Rightarrow> nat \<Rightarrow> PirArgs list \<Rightarrow> 'd \<Rightarrow> nat \<Rightarrow>
   fault + (PirArgs list \<times> 'd)" where
  "poll_domains gen SeedLength n td d j =
     (if j < length td then
        let (rv, d1) = FillBytes gen d (replicate n 0);
            td1 = td[j := (td ! j)\<lparr> RequestVector := rv \<rparr>];
            (ps, d2) = FillBytes gen d1 (replicate SeedLength 0);
            td2 = td1[j := (td1 ! j)\<lparr> PadSeed := ps \<rparr>]
        in if td2 = [] then Inl IndexOutOfRange
           else case xor_into (RequestVector (td2 ! 0)) (RequestVector (td2 ! j)) 0 of
                  Inl f \<Rightarrow> Inl f
                | Inr v0 \<Rightarrow>
                    poll_domains gen SeedLength n
                      (td2[0 := (td2 ! 0)\<lparr> RequestVector := v0 \<rparr>]) d2 (j + 1)
      else Inr (td, d))"
  by pat_completeness auto
termination
  by (relation "measure (\<lambda>(gen, SeedLength, n, td, d, j). length td - j)") auto

declare poll_domains.simps [simp del]

text \<open>
  One \<open>ReadArgs\<close> of \<open>generatePoll\<close>, for the bucket \<open>bucket\<close>; the source has this block
  twice, for \<open>args[0]\<close> with \<open>bucket1\<close> and for \<open>args[1]\<close> with \<open>bucket2\<close>.  \<open>TD[0]\<close>
  faults when there is no trust domain, and \<open>RequestVector[bucket/8]\<close> faults out of
  range.  In \<open>|= 1 << (bucket % 8)\<close> the constant 1 is a byte.
\<close>

definition poll_args ::
  "('d \<Rightarrow> nat \<Rightarrow> byte list \<times> 'd) \<Rightarrow> nat \<Rightarrow> nat \<Rightarrow> uint64 \<Rightarrow> uint64 \<Rightarrow> 'd \<Rightarrow>
   fault + (ReadArgs \<times> 'd)" where
  "poll_args gen SeedLength num nb bucket d =
     (let td = replicate num \<lparr> RequestVector = [], PadSeed = [] \<rparr>;
          n = unat ((nb + 7) div 8)
      in if td = [] then Inl IndexOutOfRange
         else
           let v = replicate n 0 in
           if length v \<le> unat (bucket div 8) then Inl IndexOutOfRange
           else
             let v' = v[unat (bucket div 8) :=
                         v ! unat (bucket div 8) OR push_bit (unat (bucket mod 8)) 1];
                 td1 = td[0 := (td ! 0)\<lparr> RequestVector := v' \<rparr>];
                 (ps, d1) = FillBytes gen d (replicate SeedLength 0);
                 td2 = td1[0 := (td1 ! 0)\<lparr> PadSeed := ps \<rparr>]
             in case poll_domains gen SeedLength n td2 d1 1 of
                  Inl f \<Rightarrow> Inl f
                | Inr (td3, d2) \<Rightarrow> Inr (\<lparr> TD = td3 \<rparr>, d2))"

text \<open>
  \<open>generatePoll\<close> returns the two \<open>ReadArgs\<close> (\<open>Inr\<close>) or the error (\<open>Inl\<close>), and the
  handle with the generator advanced.  \<open>drbg.SeedLength\<close> is a parameter.
\<close>

definition generatePoll ::
  "('seed \<Rightarrow> uint64 \<times> uint64) \<Rightarrow> (uint64 \<Rightarrow> uint64 \<Rightarrow> byte list \<Rightarrow> uint64) \<Rightarrow>
   ('d \<Rightarrow> nat \<Rightarrow> byte list \<times> 'd) \<Rightarrow> nat \<Rightarrow> ('d, 'seed) Handle \<Rightarrow> 'td ClientConfig \<Rightarrow>
   fault + ((error + ReadArgs \<times> ReadArgs) \<times> ('d, 'seed) Handle)" where
  "generatePoll KeyUint128 siphash gen SeedLength h cc =
     (if SharedSecret h = None \<or> SigningPublicKey h = None
      then Inr (Inl (errors_New ''Subscription not fully initialized''), h)
      else case nextBuckets KeyUint128 siphash h (Config cc) of
             Inl f \<Rightarrow> Inl f
           | Inr (bucket1, bucket2) \<Rightarrow>
               let num = length (TrustDomains cc) in
               case poll_args gen SeedLength num (NumBuckets (Config cc)) bucket1 (drbg h) of
                 Inl f \<Rightarrow> Inl f
               | Inr (args0, d1) \<Rightarrow>
                   (case poll_args gen SeedLength num (NumBuckets (Config cc)) bucket2 d1 of
                      Inl f \<Rightarrow> Inl f
                    | Inr (args1, d2) \<Rightarrow> Inr (Inr (args0, args1), h\<lparr> drbg := d2 \<rparr>)))"

subsection \<open>Decrypt\<close>

text \<open>
  \<open>ed25519.Verify\<close> (public key, message, signature) and
  \<open>box.OpenAfterPrecomputation\<close> (boxed message, nonce, shared key; \<open>None\<close> when the
  box does not open) are the parameters \<open>Verify\<close> and \<open>Open\<close>.  The value returned is
  Go's pair of the plaintext (\<open>None\<close> is nil) and the error (\<open>None\<close> is nil).

  \<open>make([]byte, 0, cypherlen-box.Overhead-ed25519.SignatureSize)\<close> faults on a negative
  capacity.  \<open>Open\<close> appends to this empty slice and its result is discarded; the
  value returned is \<open>plaintext[0:cap(plaintext)]\<close>, the whole backing array, which
  holds the opened bytes when they fit the capacity and is still zero when they do not.
\<close>

definition Decrypt ::
  "(byte list \<Rightarrow> byte list \<Rightarrow> byte list \<Rightarrow> bool) \<Rightarrow>
   (byte list \<Rightarrow> byte list \<Rightarrow> byte list \<Rightarrow> byte list option) \<Rightarrow>
   ('d, 'seed) Handle \<Rightarrow> byte list \<Rightarrow> byte list \<Rightarrow>
   fault + (byte list option \<times> error option)" where
  "Decrypt Verify Open h cyphertext nonce =
     (case (SharedSecret h, SigningPublicKey h) of
        (Some secret, Some pk) \<Rightarrow>
          let cypherlen = int (length cyphertext) in
          if cypherlen < SignatureSize
          then Inr (None, Some (errors_New ''Invalid cyphertext''))
          else
            let message = take (nat (cypherlen - SignatureSize)) cyphertext;
                sig = drop (nat (cypherlen - SignatureSize)) cyphertext
            in if \<not> Verify pk message sig
               then Inr (None, Some (errors_New ''Invalid Signature''))
               else if cypherlen - Overhead - SignatureSize < 0 then Inl MakeSliceRange
               else
                 let c = nat (cypherlen - Overhead - SignatureSize) in
                 case Open message nonce secret of
                   None \<Rightarrow> Inr (None, Some (errors_New ''Failed to decrypt''))
                 | Some pt \<Rightarrow>
                     Inr (Some (if length pt \<le> c then pt @ replicate (c - length pt) 0
                                else replicate c 0), None)
      | _ \<Rightarrow> Inr (None, Some (errors_New ''Handle improperly initialized'')))"

subsection \<open>retrieveResponse\<close>

text \<open>
  \<open>drbg.Overlay(seed, data)\<close> rewrites \<open>data\<close> in place; what it writes is the
  parameter \<open>Overlay\<close>.  The loop runs over the trust domains in order.
\<close>

fun strip_pads :: "(byte list \<Rightarrow> byte list \<Rightarrow> byte list) \<Rightarrow> PirArgs list \<Rightarrow> byte list \<Rightarrow> byte list" where
  "strip_pads Overlay [] data = data"
| "strip_pads Overlay (a # as) data =
     strip_pads Overlay as (in_place data (Overlay (PadSeed a) data))"

text \<open>
  The loop \<open>for i := uint(0); i < uint(len(data)); i += dataSize\<close>, from \<open>i\<close> on.
  \<open>arr\<close> is the backing array of \<open>data\<close> (its length is the capacity of the slice) and
  \<open>len\<close> the length of \<open>data\<close>; \<open>uint\<close> has 64 bits, and sums wrap around.
  \<open>data[i:i+dataSize]\<close> faults unless \<open>i \<le> i+dataSize \<le> cap(data)\<close>.  When
  \<open>Decrypt\<close> fails, the arguments of the \<open>Printf\<close> are evaluated: \<open>i/dataSize\<close>
  faults when \<open>dataSize\<close> is 0 and \<open>data[i:i+4]\<close> faults beyond the capacity
  (\<open>args.Bucket()\<close> is taken not to fault).
\<close>

function retrieve_loop ::
  "(byte list \<Rightarrow> byte list \<Rightarrow> byte list \<Rightarrow> bool) \<Rightarrow>
   (byte list \<Rightarrow> byte list \<Rightarrow> byte list \<Rightarrow> byte list option) \<Rightarrow>
   ('d, 'seed) Handle \<Rightarrow> byte list \<Rightarrow> byte list \<Rightarrow> nat \<Rightarrow> uint64 \<Rightarrow> uint64 \<Rightarrow>
   fault + byte list option" where
  "retrieve_loop Verify Open h nonce arr len dataSize i =
     (if unat i < len then
        (if i + dataSize < i \<or> length arr < unat (i + dataSize) then Inl SliceBounds
         else case Decrypt Verify Open h
                     (take (unat (i + dataSize) - unat i) (drop (unat i) arr)) nonce of
                Inl f \<Rightarrow> Inl f
              | Inr (plaintext, None) \<Rightarrow> Inr plaintext
              | Inr (plaintext, Some err) \<Rightarrow>
                  if dataSize = 0 then Inl DivideByZero
                  else if i + 4 < i \<or> length arr < unat (i + 4) then Inl SliceBounds
                  else retrieve_loop Verify Open h nonce arr len dataSize (i + dataSize))
      else Inr None)"
  by pat_completeness auto
termination
proof (relation "measure (\<lambda>(Verify, Open, h, nonce, arr, len, dataSize, i). length arr - unat i)")
  show "wf (measure (\<lambda>(Verify, Open, h, nonce, arr, len, dataSize, i). length arr - unat i))"
    by simp
next
  fix Verify :: "byte list \<Rightarrow> byte list \<Rightarrow> byte list \<Rightarrow> bool"
    and Open :: "byte list \<Rightarrow> byte list \<Rightarrow> byte list \<Rightarrow> byte list option"
    and h :: "('d, 'seed) Handle" and nonce arr :: "byte list" and len :: nat
    and dataSize i :: uint64
  assume a: "\<not> (i + dataSize < i \<or> length arr < unat (i + dataSize))" "dataSize \<noteq> 0"
  from a(1) have le: "i \<le> i + dataSize" by (simp add: not_less)
  from a(2) have "i + dataSize \<noteq> i" by simp
  with le have "i < i + dataSize" by (metis order_le_less)
  then have lt: "unat i < unat (i + dataSize)" by (simp add: word_less_nat_alt)
  from a(1) have "unat (i + dataSize) \<le> length arr" by (simp add: not_less)
  with lt have "length arr - unat (i + dataSize) < length arr - unat i" by arith
  then show "((Verify, Open, h, nonce, arr, len, dataSize, i + dataSize),
              (Verify, Open, h, nonce, arr, len, dataSize, i))
    \<in> measure (\<lambda>(Verify, Open, h, nonce, arr, len, dataSize, i). length arr - unat i)"
    by simp
qed

declare retrieve_loop.simps [simp del]

definition retrieveResponse ::
  "(byte list \<Rightarrow> byte list \<Rightarrow> byte list) \<Rightarrow>
   (byte list \<Rightarrow> byte list \<Rightarrow> byte list \<Rightarrow> bool) \<Rightarrow>
   (byte list \<Rightarrow> byte list \<Rightarrow> byte list \<Rightarrow> byte list option) \<Rightarrow>
   ('d, 'seed) Handle \<Rightarrow> ReadArgs \<Rightarrow> ReadReply \<Rightarrow> uint64 \<Rightarrow> fault + byte list option" where
  "retrieveResponse Overlay Verify Open h args reply dataSize =
     (let data = strip_pads Overlay (TD args) (RData reply) in
      case seqNoBytes (Seqno h) of
        Inl f \<Rightarrow> Inl f
      | Inr nonce \<Rightarrow>
          retrieve_loop Verify Open h nonce (data @ RSpare reply) (length data) dataSize 0)"

subsection \<open>Encodings, strides and one-hot vectors\<close>

text \<open>
  The unsigned varint of a 64-bit value as a list of bytes, and the same value as \<open>n\<close>
  bytes in little-endian order (the "fixed-width little-endian value" of the
  specification).
\<close>

function uvarint :: "uint64 \<Rightarrow> byte list" where
  "uvarint x = (if 0x80 \<le> x then (ucast x OR 0x80) # uvarint (drop_bit 7 x) else [ucast x])"
  by pat_completeness auto
termination
proof (relation "measure unat")
  show "wf (measure (unat :: uint64 \<Rightarrow> nat))" by simp
next
  fix x :: uint64
  assume "0x80 \<le> x"
  then have "128 \<le> unat x" by (simp add: word_le_nat_alt)
  then have "unat x div 128 < unat x" by simp
  then have "unat (drop_bit 7 x) < unat x" by (simp add: drop_bit_eq_div unat_div)
  then show "(drop_bit 7 x, x) \<in> measure unat" by simp
qed

declare uvarint.simps [simp del]

definition little_endian :: "nat \<Rightarrow> uint64 \<Rightarrow> byte list" where
  "little_endian n x = map (\<lambda>k. ucast (drop_bit (8 * k) x)) [0..<n]"

text \<open>The number that a list of bytes spells, least significant byte first.\<close>

fun le_value :: "byte list \<Rightarrow> nat" where
  "le_value [] = 0"
| "le_value (b # bs) = unat b + 256 * le_value bs"

text \<open>
  The strides of \<open>d\<close> bytes of a buffer, and the plaintext of the first stride that
  a decryption \<open>dec\<close> opens without error (\<open>None\<close>, nil, when there is none).
\<close>

definition strides :: "nat \<Rightarrow> byte list \<Rightarrow> byte list list" where
  "strides d xs = map (\<lambda>t. take d (drop (t * d) xs)) [0..<length xs div d]"

fun first_decrypted ::
  "(byte list \<Rightarrow> fault + (byte list option \<times> error option)) \<Rightarrow> byte list list \<Rightarrow>
   byte list option" where
  "first_decrypted dec [] = None"
| "first_decrypted dec (c # cs) =
     (case dec c of
        Inr (plaintext, None) \<Rightarrow> plaintext
      | _ \<Rightarrow> first_decrypted dec cs)"

text \<open>
  The XOR of byte vectors, position by position, and the vector of \<open>n\<close> bytes whose
  only set bit is bit \<open>b\<close> (bit \<open>b mod 8\<close> of byte \<open>b div 8\<close>).
\<close>

definition xor_bytes :: "byte list \<Rightarrow> byte list \<Rightarrow> byte list" where
  "xor_bytes a b = map2 (XOR) a b"

definition xor_all :: "byte list list \<Rightarrow> byte list" where
  "xor_all vs = foldl xor_bytes (hd vs) (tl vs)"

definition one_hot :: "nat \<Rightarrow> nat \<Rightarrow> byte list" where
  "one_hot n b = map (\<lambda>k. if k = b div 8 then push_bit (b mod 8) 1 else 0) [0..<n]"

section \<open>The PIR shard\<close>

text \<open>
  The sources hold the helpers of the shard tests (\<open>GenerateData\<close>, the \<open>setBit\<close>
  closure and the checks of \<open>HelperTestShardRead\<close>), not a shard: the type behind
  \<open>pir.Shard\<close> and its \<open>Read\<close> are not among them.
\<close>

subsection \<open>The test helpers\<close>

text \<open>\<open>GenerateData\<close>: \<open>data[i] = byte(i)\<close>.\<close>

definition GenerateData :: "nat \<Rightarrow> byte list" where
  "GenerateData sz = map (\<lambda>i. of_nat i) [0..<sz]"

text \<open>
  \<open>setBit\<close>: \<open>reqs[reqIndex*reqLength+(bucketIndex/8)] |= byte(1) << uint(bucketIndex%8)\<close>;
  the index faults out of range.
\<close>

definition setBit :: "nat \<Rightarrow> byte list \<Rightarrow> nat \<Rightarrow> nat \<Rightarrow> fault + byte list" where
  "setBit reqLength reqs reqIndex bucketIndex =
     (let p = reqIndex * reqLength + bucketIndex div 8
      in if length reqs \<le> p then Inl IndexOutOfRange
         else Inr (reqs[p := reqs ! p OR push_bit (bucketIndex mod 8) 1]))"

text \<open>
  The batch of \<open>HelperTestShardRead\<close> for a shard of \<open>nb\<close> buckets: three requests
  (\<open>TestBatchSize\<close>), selecting bucket 1, bucket 0, and buckets 0, 1 and 2.
\<close>

definition TestBatchSize :: nat where
  "TestBatchSize = 3"

definition test_reqLength :: "nat \<Rightarrow> nat" where
  "test_reqLength nb = (if nb mod 8 \<noteq> 0 then nb div 8 + 1 else nb div 8)"

definition test_reqs :: "nat \<Rightarrow> fault + byte list" where
  "test_reqs nb =
     (let reqLength = test_reqLength nb;
          reqs = replicate (reqLength * TestBatchSize) 0
      in case setBit reqLength reqs 0 1 of Inl f \<Rightarrow> Inl f | Inr r1 \<Rightarrow>
         case setBit reqLength r1 1 0 of Inl f \<Rightarrow> Inl f | Inr r2 \<Rightarrow>
         case setBit reqLength r2 2 0 of Inl f \<Rightarrow> Inl f | Inr r3 \<Rightarrow>
         case setBit reqLength r3 2 1 of Inl f \<Rightarrow> Inl f | Inr r4 \<Rightarrow>
         setBit reqLength r4 2 2)"

subsection \<open>The shard and its read\<close>

text \<open>
  Modelled from the spec: the shard type behind \<open>pir.Shard\<close> is missing from the
  sources.  A shard is made from a bucket size and its data, a contiguous buffer of
  buckets of \<open>bucketSize = depth \<cdot> DataSize\<close> bytes each.
\<close>

record Shard =
  bucketSize :: nat
  shardData :: "byte list"

text \<open>
  Modelled from the spec: \<open>GetNumBuckets\<close> of the shard is missing from the sources.
  The buffer holds whole buckets, so their number is its length over the bucket size.
\<close>

definition GetNumBuckets :: "Shard \<Rightarrow> nat" where
  "GetNumBuckets sh = length (shardData sh) div bucketSize sh"

text \<open>
  Modelled from the spec: the layout of a batch is not in the sources but for the
  test's \<open>setBit\<close>.  A batch is a sequence of request bit vectors of \<open>reqStride\<close> bytes
  each, one bit per bucket; the bit of bucket \<open>j\<close> in request \<open>i\<close> sits where \<open>setBit\<close>
  puts it.
\<close>

definition req_bit :: "byte list \<Rightarrow> nat \<Rightarrow> nat \<Rightarrow> nat \<Rightarrow> bool" where
  "req_bit reqs reqStride i j = bit (reqs ! (i * reqStride + j div 8)) (j mod 8)"

text \<open>
  Modelled from the spec: the scan of the read engine is missing from the sources.
  A bucket is accumulated into every request's running XOR unconditionally, the
  selection being a multiplication by the request's bit ("select-via-multiply/mask,
  never branch-on-bit").  \<open>resp\<close> holds the running XORs, \<open>bucketSize\<close> bytes per
  request.
\<close>

definition scan_bucket :: "Shard \<Rightarrow> byte list \<Rightarrow> nat \<Rightarrow> nat \<Rightarrow> byte list \<Rightarrow> byte list" where
  "scan_bucket sh reqs reqStride j resp =
     map (\<lambda>p. resp ! p XOR
               shardData sh ! (j * bucketSize sh + p mod bucketSize sh) *
               of_bool (req_bit reqs reqStride (p div bucketSize sh) j))
         [0..<length resp]"

text \<open>
  Modelled from the spec: \<open>Read\<close> of the shard is missing from the sources.  Every
  bucket is scanned once per batch, and the output is the concatenation of the
  per-request results, \<open>batch \<cdot> bucketSize\<close> bytes.  The specification names an error
  result and does not say when it arises; here a batch that is not a whole number of
  vectors of at least one bit per bucket, and a shard without a bucket size, are
  errors.
\<close>

definition Read :: "Shard \<Rightarrow> byte list \<Rightarrow> nat \<Rightarrow> string + byte list" where
  "Read sh reqs reqStride =
     (if bucketSize sh = 0 \<or> reqStride = 0 \<or> length reqs mod reqStride \<noteq> 0 \<or>
         reqStride * 8 < GetNumBuckets sh
      then Inl ''malformed batch''
      else Inr (fold (scan_bucket sh reqs reqStride) [0..<GetNumBuckets sh]
                  (replicate (length reqs div reqStride * bucketSize sh) 0)))"

text \<open>
  The notions of the property of the read: request \<open>i\<close> of a batch, the buckets it selects, the data
  of a bucket, and the byte-wise XOR of the selected buckets' data.
\<close>

definition request :: "byte list \<Rightarrow> nat \<Rightarrow> nat \<Rightarrow> byte list" where
  "request reqs reqStride i = take reqStride (drop (i * reqStride) reqs)"

definition selected :: "byte list \<Rightarrow> nat \<Rightarrow> nat list" where
  "selected vec nb = filter (\<lambda>j. bit (vec ! (j div 8)) (j mod 8)) [0..<nb]"

definition bucket_data :: "Shard \<Rightarrow> nat \<Rightarrow> byte list" where
  "bucket_data sh j = take (bucketSize sh) (drop (j * bucketSize sh) (shardData sh))"

definition xor_of_buckets :: "Shard \<Rightarrow> nat list \<Rightarrow> byte list" where
  "xor_of_buckets sh js =
     foldl xor_bytes (replicate (bucketSize sh) 0) (map (bucket_data sh) js)"

definition response_at :: "Shard \<Rightarrow> byte list \<Rightarrow> nat \<Rightarrow> byte list" where
  "response_at sh resp i = take (bucketSize sh) (drop (i * bucketSize sh) resp)"

section \<open>Concrete inputs\<close>

text \<open>
  A replica of one shard of one bucket of depth one with one-byte messages, a shard
  constructor that records its arguments, and a coordinator that accepts every request
  and answers with a fixed layout.
\<close>

definition cfg1 :: Config where
  "cfg1 = \<lparr> NumBuckets = 1, NumShardsPerGroup = 1, NumBucketsPerShard = 1,
             BucketDepth = 1, DataSize = 1 \<rparr>"

definition shard_of :: "int \<Rightarrow> byte list \<Rightarrow> string \<Rightarrow> int \<times> byte list" where
  "shard_of bs data backing = (bs, data)"

definition rpc_ok :: "uint64 list \<Rightarrow> string \<Rightarrow> GetLayoutArgs \<Rightarrow> string option \<times> GetLayoutReply" where
  "rpc_ok layout addr args =
     (None, \<lparr> LErr = OK, ReplySnapshotID = ArgSnapshotID args, Layout = layout \<rparr>)"

definition replica0 :: "(int \<times> byte list) Server" where
  "replica0 = NewServer ''r0'' cfg1 0 ''cpu''"

definition msg7 :: WriteArgs where
  "msg7 = \<lparr> ID = 7, WData = [42] \<rparr>"

text \<open>The replica after message 7 was written and snapshot 5 was applied.\<close>

definition replica5 :: "(int \<times> byte list) Server" where
  "replica5 = replica0\<lparr> snapshotID := 5, shards := [Some (1, [42])],
                        messages := [7 \<mapsto> msg7] \<rparr>"

text \<open>
  A handle with both keys set and sequence number 128, and collaborators that are easy
  to follow: a signature check that accepts or rejects everything, a box that never
  opens, and a box whose plaintext is the nonce it was opened with.
\<close>

definition handle128 :: "(nat, unit) Handle" where
  "handle128 = \<lparr> drbg = 0, Seed1 = (), Seed2 = (),
                  SharedSecret = Some (replicate 32 1), SigningPublicKey = Some (replicate 32 2),
                  Seqno = 128 \<rparr>"

definition verify_all :: "byte list \<Rightarrow> byte list \<Rightarrow> byte list \<Rightarrow> bool" where
  "verify_all pk message sig = True"

definition verify_none :: "byte list \<Rightarrow> byte list \<Rightarrow> byte list \<Rightarrow> bool" where
  "verify_none pk message sig = False"

definition open_never :: "byte list \<Rightarrow> byte list \<Rightarrow> byte list \<Rightarrow> byte list option" where
  "open_never message nonce key = None"

definition open_nonce :: "byte list \<Rightarrow> byte list \<Rightarrow> byte list \<Rightarrow> byte list option" where
  "open_nonce message nonce key = Some nonce"

definition overlay_none :: "byte list \<Rightarrow> byte list \<Rightarrow> byte list" where
  "overlay_none seed data = data"

text \<open>
  A handle with two seeds, a configuration of 16 buckets and two trust domains, and
  stand-ins for the seed keys, the hash and the generator (a counter).
\<close>

definition handle_poll :: "(nat, nat) Handle" where
  "handle_poll = \<lparr> drbg = 1, Seed1 = 1, Seed2 = 2,
                    SharedSecret = Some (replicate 32 1), SigningPublicKey = Some (replicate 32 2),
                    Seqno = 0 \<rparr>"

definition cc16 :: "unit ClientConfig" where
  "cc16 = \<lparr> Config = \<lparr> NumBuckets = 16, NumShardsPerGroup = 1, NumBucketsPerShard = 16,
                          BucketDepth = 1, DataSize = 104 \<rparr>,
             TrustDomains = [(), ()] \<rparr>"

definition seed_key :: "nat \<Rightarrow> uint64 \<times> uint64" where
  "seed_key s = (of_nat s, 0)"

definition toy_hash :: "uint64 \<Rightarrow> uint64 \<Rightarrow> byte list \<Rightarrow> uint64" where
  "toy_hash k0 k1 bytes = k0 * 7 + 3"

definition counter_gen :: "nat \<Rightarrow> nat \<Rightarrow> byte list \<times> nat" where
  "counter_gen d n = (map (\<lambda>i. of_nat (d + i)) [0..<n], d + n)"

text \<open>
  The shard of the concrete scenario: 16 buckets of depth 2 with messages of 8 bytes,
  filled by \<open>GenerateData\<close>.
\<close>

definition shard16 :: Shard where
  "shard16 = \<lparr> bucketSize = 16, shardData = GenerateData 256 \<rparr>"

section \<open>Theorems\<close>

subsection \<open>CuckooTable\<close>

lemma isInBucket_loop_total:
  assumes "bucket_ok d b" "0 \<le> i"
  shows "\<exists>r. isInBucket_loop deq d b target i = Inr r"
  using assms
proof (induction deq d b target i rule: isInBucket_loop.induct)
  case (1 deq d bucket target i)
  show ?case
  proof (cases "i < d")
    case False
    then show ?thesis by (subst isInBucket_loop.simps) auto
  next
    case True
    with "1.prems" have len: "nat i < length (filled bucket)" "nat i < length (entries bucket)"
      by (auto simp: bucket_ok_def)
    from True "1.prems" have nn: "filled bucket ! nat i \<Longrightarrow> entries bucket ! nat i \<noteq> None"
      by (auto simp: bucket_ok_def)
    show ?thesis
    proof (cases "filled bucket ! nat i")
      case f: False
      from "1.IH"(2)[OF True _ f] "1.prems" len True f show ?thesis
        by (subst isInBucket_loop.simps) auto
    next
      case f: True
      then obtain x where x: "entries bucket ! nat i = Some x" using nn by auto
      show ?thesis
      proof (cases "Equals deq x target")
        case True
        with \<open>i < d\<close> len f x "1.prems" show ?thesis by (subst isInBucket_loop.simps) auto
      next
        case e: False
        from "1.IH"(1)[OF True _ f _ x e] "1.prems" len True f x e show ?thesis
          by (subst isInBucket_loop.simps) auto
      qed
    qed
  qed
qed

lemma isInBucket_total:
  assumes "table_ok t" "0 \<le> k" "k < numBuckets t"
  shows "\<exists>r. isInBucket deq t k e = Inr r"
proof -
  from assms have "nat k < length (buckets t)" by (simp add: table_ok_def)
  then have "buckets t ! nat k \<in> set (buckets t)" by simp
  with assms have "bucket_ok (depth t) (buckets t ! nat k)" by (simp add: table_ok_def)
  from isInBucket_loop_total[OF this, of 0] assms show ?thesis
    by (simp add: isInBucket_def table_ok_def)
qed

text \<open>
  Claim C10.  On a table that satisfies the representation invariant, and for an entry
  whose two bucket indices are non-negative, \<open>Contains\<close> returns a value (it never
  faults on an index).  A candidate index that is not below \<open>numBuckets\<close> is not
  searched: the answer is then the one of the other candidate alone, and \<open>False\<close> when
  both are out of range.
\<close>

theorem Contains_total_in_range:
  assumes "table_ok t" "0 \<le> Bucket1 e" "0 \<le> Bucket2 e"
  shows "(\<exists>r. Contains deq t e = Inr r) \<and>
         (numBuckets t \<le> Bucket1 e \<longrightarrow>
            Contains deq t e = (if Bucket2 e < numBuckets t then isInBucket deq t (Bucket2 e) e else Inr False)) \<and>
         (numBuckets t \<le> Bucket2 e \<longrightarrow>
            Contains deq t e = (if Bucket1 e < numBuckets t then isInBucket deq t (Bucket1 e) e else Inr False)) \<and>
         (numBuckets t \<le> Bucket1 e \<and> numBuckets t \<le> Bucket2 e \<longrightarrow> Contains deq t e = Inr False)"
proof -
  have a: "Bucket1 e < numBuckets t \<Longrightarrow> \<exists>r. isInBucket deq t (Bucket1 e) e = Inr r"
    using isInBucket_total[OF assms(1) assms(2)] by simp
  have b: "Bucket2 e < numBuckets t \<Longrightarrow> \<exists>r. isInBucket deq t (Bucket2 e) e = Inr r"
    using isInBucket_total[OF assms(1) assms(3)] by simp
  have 1: "\<exists>r. Contains deq t e = Inr r"
    using a b by (auto simp: Contains_def split: sum.splits)
  have 2: "numBuckets t \<le> Bucket1 e \<Longrightarrow>
            Contains deq t e = (if Bucket2 e < numBuckets t then isInBucket deq t (Bucket2 e) e else Inr False)"
    by (simp add: Contains_def)
  have 3: "numBuckets t \<le> Bucket2 e \<Longrightarrow>
            Contains deq t e = (if Bucket1 e < numBuckets t then isInBucket deq t (Bucket1 e) e else Inr False)"
    using a by (auto simp: Contains_def split: sum.splits)
  from 1 2 3 show ?thesis by simp
qed


theorem Contains_total_in_range_witness:
  "table_ok \<lparr>numBuckets = 1, depth = 1,
       buckets = [\<lparr>entries = [Some \<lparr>Bucket1 = 0, Bucket2 = 5, Data = ()\<rparr>], filled = [True]\<rparr>]\<rparr> \<and>
   Contains (=) \<lparr>numBuckets = 1, depth = 1,
       buckets = [\<lparr>entries = [Some \<lparr>Bucket1 = 0, Bucket2 = 5, Data = ()\<rparr>], filled = [True]\<rparr>]\<rparr>
     \<lparr>Bucket1 = 7, Bucket2 = 5, Data = ()\<rparr> = Inr False \<and>
   Contains (=) \<lparr>numBuckets = 1, depth = 1,
       buckets = [\<lparr>entries = [Some \<lparr>Bucket1 = 0, Bucket2 = 5, Data = ()\<rparr>], filled = [True]\<rparr>]\<rparr>
     \<lparr>Bucket1 = 5, Bucket2 = 0, Data = ()\<rparr> = Inr True"
proof -
  let ?t = "\<lparr>numBuckets = 1, depth = 1,
       buckets = [\<lparr>entries = [Some \<lparr>Bucket1 = 0, Bucket2 = 5, Data = ()\<rparr>], filled = [True]\<rparr>]\<rparr>"
  have ok: "table_ok ?t" by (simp add: table_ok_def bucket_ok_def)
  have "isInBucket (=) ?t 0 \<lparr>Bucket1 = 5, Bucket2 = 0, Data = ()\<rparr> = Inr True"
    by (simp add: isInBucket_def isInBucket_loop.simps Equals_def)
  with ok Contains_total_in_range[OF ok, of "\<lparr>Bucket1 = 7, Bucket2 = 5, Data = ()\<rparr>" "(=)"]
    Contains_total_in_range[OF ok, of "\<lparr>Bucket1 = 5, Bucket2 = 0, Data = ()\<rparr>" "(=)"]
  show ?thesis by simp
qed

lemma first_empty_Some:
  "first_empty fs k = Some i \<Longrightarrow> k \<le> i \<and> i - k < length fs \<and> \<not> fs ! (i - k)"
proof (induction fs arbitrary: k)
  case Nil
  then show ?case by simp
next
  case (Cons f fs)
  show ?case
  proof (cases f)
    case False
    with Cons.prems show ?thesis by simp
  next
    case True
    with Cons.prems have "first_empty fs (Suc k) = Some i" by simp
    from Cons.IH[OF this] show ?thesis by (auto simp: Suc_diff_Suc nth_Cons')
  qed
qed

lemma bucket_ok_update:
  assumes "bucket_ok d b"
  shows "bucket_ok d (b\<lparr> filled := (filled b)[i := True], entries := (entries b)[i := Some e] \<rparr>)"
  unfolding bucket_ok_def
proof (intro conjI allI impI)
  fix ia
  assume ia: "ia < nat d"
    and f: "filled (b\<lparr>filled := (filled b)[i := True], entries := (entries b)[i := Some e]\<rparr>) ! ia"
  show "entries (b\<lparr>filled := (filled b)[i := True], entries := (entries b)[i := Some e]\<rparr>) ! ia \<noteq> None"
  proof (cases "ia = i")
    case True
    with ia assms show ?thesis by (simp add: bucket_ok_def)
  next
    case False
    with ia f assms show ?thesis by (simp add: bucket_ok_def)
  qed
qed (use assms in \<open>simp_all add: bucket_ok_def\<close>)

lemma NewTable_ok: "NewTable nb d = Inr t \<Longrightarrow> table_ok t"
  by (auto simp: NewTable_def table_ok_def bucket_ok_def split: if_splits)

lemma tryInsertToBucket_ok:
  assumes "table_ok t" "tryInsertToBucket t k e = Inr (ok, t')"
  shows "table_ok t'"
proof (cases ok)
  case False
  with assms show ?thesis
    by (auto simp: tryInsertToBucket_def Let_def split: if_splits option.splits)
next
  case True
  with assms obtain i where
    k: "0 \<le> k" "nat k < length (buckets t)" and
    fe: "first_empty (filled (buckets t ! nat k)) 0 = Some i" and
    t': "t' = t\<lparr> buckets := (buckets t)[nat k :=
            (buckets t ! nat k)\<lparr> filled := (filled (buckets t ! nat k))[i := True],
                    entries := (entries (buckets t ! nat k))[i := Some e] \<rparr>] \<rparr>"
    by (auto simp: tryInsertToBucket_def Let_def split: if_splits option.splits)
  from k assms(1) have bk: "bucket_ok (depth t) (buckets t ! nat k)"
    by (simp add: table_ok_def)
  have "bucket_ok (depth t) ((buckets t ! nat k)\<lparr> filled := (filled (buckets t ! nat k))[i := True],
                    entries := (entries (buckets t ! nat k))[i := Some e] \<rparr>)"
    using bk by (rule bucket_ok_update)
  with assms(1) show ?thesis unfolding t'
    by (auto simp: table_ok_def dest!: set_update_subset_insert[THEN subsetD])
qed

lemma Insert_ok:
  assumes "table_ok t" "Insert t e = Inr (r, t')"
  shows "table_ok t'"
  using assms
  by (auto simp: Insert_def split: sum.splits prod.splits if_splits
           dest: tryInsertToBucket_ok)

lemma Remove_ok: "table_ok t \<Longrightarrow> table_ok (Remove t e)"
  by (simp add: Remove_def removeFromBucket_def)

lemma isInBucket_loop_finds:
  assumes "bucket_ok d b" "0 \<le> j" "j \<le> int i" "int i < d"
    and "filled b ! i" "entries b ! i = Some x" "Equals deq x target"
  shows "isInBucket_loop deq d b target j = Inr True"
  using assms
proof (induction deq d b target j rule: isInBucket_loop.induct)
  case (1 deq d bucket target j)
  from "1.prems" have jd: "j < d" by simp
  with "1.prems" have len: "nat j < length (filled bucket)" "nat j < length (entries bucket)"
    by (auto simp: bucket_ok_def)
  from jd "1.prems" have nn: "filled bucket ! nat j \<Longrightarrow> entries bucket ! nat j \<noteq> None"
    by (auto simp: bucket_ok_def)
  show ?case
  proof (cases "j = int i")
    case True
    with "1.prems" len jd show ?thesis
      by (subst isInBucket_loop.simps) auto
  next
    case ne: False
    with "1.prems" have lt: "j + 1 \<le> int i" by simp
    show ?thesis
    proof (cases "filled bucket ! nat j")
      case f: False
      from "1.IH"(2)[OF jd _ f] "1.prems" lt len jd f show ?thesis
        by (subst isInBucket_loop.simps) auto
    next
      case f: True
      then obtain y where y: "entries bucket ! nat j = Some y" using nn by auto
      show ?thesis
      proof (cases "Equals deq y target")
        case True
        with jd len f y "1.prems" show ?thesis by (subst isInBucket_loop.simps) auto
      next
        case e: False
        from "1.IH"(1)[OF jd _ f _ y e] "1.prems" lt len jd f y e show ?thesis
          by (subst isInBucket_loop.simps) auto
      qed
    qed
  qed
qed

lemma tryInsertToBucket_isInBucket:
  assumes "table_ok t" "deq (Data e) (Data e)" "tryInsertToBucket t k e = Inr (True, t')"
  shows "isInBucket deq t' k e = Inr True \<and> 0 \<le> k \<and> k < numBuckets t' \<and>
         (k = Bucket1 e \<or> k = Bucket2 e)"
proof -
  from assms obtain i where
    k: "0 \<le> k" "nat k < length (buckets t)" "k = Bucket1 e \<or> k = Bucket2 e" and
    fe: "first_empty (filled (buckets t ! nat k)) 0 = Some i" and
    t': "t' = t\<lparr> buckets := (buckets t)[nat k :=
            (buckets t ! nat k)\<lparr> filled := (filled (buckets t ! nat k))[i := True],
                    entries := (entries (buckets t ! nat k))[i := Some e] \<rparr>] \<rparr>"
    by (auto simp: tryInsertToBucket_def Let_def split: if_splits option.splits)
  from k assms(1) have bk: "bucket_ok (depth t) (buckets t ! nat k)"
    by (simp add: table_ok_def)
  from first_empty_Some[OF fe] bk have i: "i < nat (depth t)"
    by (simp add: bucket_ok_def)
  let ?b = "(buckets t ! nat k)\<lparr> filled := (filled (buckets t ! nat k))[i := True],
                    entries := (entries (buckets t ! nat k))[i := Some e] \<rparr>"
  have ok: "bucket_ok (depth t) ?b"
    using bk by (rule bucket_ok_update)
  have eq: "Equals deq e e" using assms(2) by (simp add: Equals_def)
  have "isInBucket_loop deq (depth t) ?b e 0 = Inr True"
  proof (rule isInBucket_loop_finds[OF ok _ _ _ _ _ eq, of 0 i])
    show "int i < depth t" using i by simp
    show "filled ?b ! i" using i bk by (simp add: bucket_ok_def)
    show "entries ?b ! i = Some e" using i bk by (simp add: bucket_ok_def)
  qed simp_all
  with k assms(1) show ?thesis unfolding t'
    by (simp add: isInBucket_def table_ok_def)
qed

lemma Insert_then_Contains:
  assumes "table_ok t" "deq (Data e) (Data e)" "Insert t e = Inr (Some True, t')"
  shows "Contains deq t' e = Inr True"
proof -
  from assms(3) consider
      (first) "tryInsertToBucket t (Bucket1 e) e = Inr (True, t')"
    | (second) t1 where "tryInsertToBucket t (Bucket1 e) e = Inr (False, t1)"
        "tryInsertToBucket t1 (Bucket2 e) e = Inr (True, t')"
    by (auto simp: Insert_def split: sum.splits prod.splits if_splits)
  then show ?thesis
  proof cases
    case first
    from tryInsertToBucket_isInBucket[where deq=deq, OF assms(1,2) first] show ?thesis
      by (simp add: Contains_def)
  next
    case second
    from tryInsertToBucket_ok[OF assms(1) second(1)] have ok1: "table_ok t1" .
    have ok': "table_ok t'" using tryInsertToBucket_ok[OF ok1 second(2)] .
    from tryInsertToBucket_isInBucket[where deq=deq, OF ok1 assms(2) second(2)]
    have b2: "isInBucket deq t' (Bucket2 e) e = Inr True" "0 \<le> Bucket2 e" "Bucket2 e < numBuckets t'"
      by auto
    show ?thesis
    proof (cases "Bucket1 e < numBuckets t'")
      case False
      with b2 show ?thesis by (simp add: Contains_def)
    next
      case True
      show ?thesis
      proof (cases "isInBucket deq t' (Bucket1 e) e")
        case (Inl f)
        from second(1) have "0 \<le> Bucket1 e"
          by (auto simp: tryInsertToBucket_def Let_def split: if_splits option.splits)
        from isInBucket_total[OF ok' this True, of deq e] Inl show ?thesis by simp
      next
        case (Inr r)
        with b2 True show ?thesis by (simp add: Contains_def)
      qed
    qed
  qed
qed


text \<open>
  Claim C7.  \<open>Contains\<close> is true right after a successful \<open>Insert\<close>
  (\<open>Insert_then_Contains\<close> above), but it is still true right after \<open>Remove\<close>: the
  body of \<open>removeFromBucket\<close> is empty, so \<open>Remove\<close> leaves the table as it was.  On a
  new table of one bucket of depth one, the entry with both indices 0 is inserted,
  removed, and still found.
\<close>

theorem Remove_keeps_entry:
  "NewTable 1 1 = Inr \<lparr>numBuckets = 1, depth = 1,
       buckets = [\<lparr>entries = [None], filled = [False]\<rparr>]\<rparr> \<and>
   Insert \<lparr>numBuckets = 1, depth = 1, buckets = [\<lparr>entries = [None], filled = [False]\<rparr>]\<rparr>
       \<lparr>Bucket1 = 0, Bucket2 = 0, Data = ()\<rparr> =
     Inr (Some True, \<lparr>numBuckets = 1, depth = 1,
       buckets = [\<lparr>entries = [Some \<lparr>Bucket1 = 0, Bucket2 = 0, Data = ()\<rparr>], filled = [True]\<rparr>]\<rparr>) \<and>
   Contains (=) (Remove \<lparr>numBuckets = 1, depth = 1,
       buckets = [\<lparr>entries = [Some \<lparr>Bucket1 = 0, Bucket2 = 0, Data = ()\<rparr>], filled = [True]\<rparr>]\<rparr>
       \<lparr>Bucket1 = 0, Bucket2 = 0, Data = ()\<rparr>) \<lparr>Bucket1 = 0, Bucket2 = 0, Data = ()\<rparr> = Inr True"
  by (simp add: NewTable_def Insert_def tryInsertToBucket_def Contains_def Remove_def
        removeFromBucket_def isInBucket_def isInBucket_loop.simps Equals_def)

subsection \<open>ReplicaServer\<close>

lemma Write_reject:
  "length (WData args) \<noteq> unat (DataSize (config s)) \<Longrightarrow>
   Write s args = (Inr \<lparr> Err = ''Invalid data size'' \<rparr>, s)"
  by (simp add: Write_def)

lemma Write_accept:
  "length (WData args) = unat (DataSize (config s)) \<Longrightarrow> \<not> msgLock s \<Longrightarrow>
   Write s args = (Inr \<lparr> Err = [] \<rparr>, s\<lparr> messages := (messages s)(ID args \<mapsto> args) \<rparr>)"
  by (simp add: Write_def mutex_Lock_def mutex_Unlock_def)

text \<open>
  Claim C6.  Entered with \<open>msgLock\<close> free, \<open>Write\<close> answers \<open>Invalid data size\<close> and
  leaves the replica as it was exactly when the length of the data differs from
  \<open>DataSize\<close>; otherwise it answers with an empty error and stores the arguments under
  their ID, replacing what was there.  The buffer of messages is unchanged only on a
  rejection or when the same entry was already stored, and writing the same arguments a
  second time gives the same reply and the same state as writing them once.
\<close>

theorem Write_size_check:
  assumes "\<not> msgLock s"
  shows "(length (WData args) \<noteq> unat (DataSize (config s)) \<longrightarrow>
            Write s args = (Inr \<lparr> Err = ''Invalid data size'' \<rparr>, s)) \<and>
         (length (WData args) = unat (DataSize (config s)) \<longrightarrow>
            Write s args = (Inr \<lparr> Err = [] \<rparr>, s\<lparr> messages := (messages s)(ID args \<mapsto> args) \<rparr>)) \<and>
         (fst (Write s args) = Inr \<lparr> Err = ''Invalid data size'' \<rparr> \<longleftrightarrow>
            length (WData args) \<noteq> unat (DataSize (config s))) \<and>
         (messages (snd (Write s args)) = messages s \<longleftrightarrow>
            length (WData args) \<noteq> unat (DataSize (config s)) \<or> messages s (ID args) = Some args) \<and>
         Write (snd (Write s args)) args = Write s args"
proof (cases "length (WData args) = unat (DataSize (config s))")
  case False
  then show ?thesis by (simp add: Write_reject)
next
  case True
  let ?s' = "s\<lparr> messages := (messages s)(ID args \<mapsto> args) \<rparr>"
  have w: "Write s args = (Inr \<lparr> Err = [] \<rparr>, ?s')"
    using True assms by (rule Write_accept)
  have "Write ?s' args = (Inr \<lparr> Err = [] \<rparr>, ?s'\<lparr> messages := (messages ?s')(ID args \<mapsto> args) \<rparr>)"
    using True assms by (intro Write_accept) simp_all
  then have w2: "Write ?s' args = (Inr \<lparr> Err = [] \<rparr>, ?s')" by simp
  have m: "(messages s)(ID args \<mapsto> args) = messages s \<longleftrightarrow> messages s (ID args) = Some args"
    by (metis fun_upd_same fun_upd_triv)
  show ?thesis using True w w2 m by simp
qed

theorem Write_size_check_witness:
  "\<not> msgLock replica0 \<and>
   Write replica0 msg7 = (Inr \<lparr> Err = [] \<rparr>, replica0\<lparr> messages := [7 \<mapsto> msg7] \<rparr>) \<and>
   Write replica0 \<lparr> ID = 7, WData = [] \<rparr> = (Inr \<lparr> Err = ''Invalid data size'' \<rparr>, replica0)"
proof -
  have l: "\<not> msgLock replica0" by (simp add: replica0_def NewServer_def)
  have a: "length (WData msg7) = unat (DataSize (config replica0))"
    by (simp add: replica0_def NewServer_def cfg1_def msg7_def)
  have b: "length (WData \<lparr> ID = 7, WData = [] \<rparr>) \<noteq> unat (DataSize (config replica0))"
    by (simp add: replica0_def NewServer_def cfg1_def)
  have m: "(messages replica0)(ID msg7 \<mapsto> msg7) = [7 \<mapsto> msg7]"
    by (simp add: replica0_def NewServer_def msg7_def)
  from Write_size_check[OF l, of msg7] Write_size_check[OF l, of "\<lparr> ID = 7, WData = [] \<rparr>"] l a b m
  show ?thesis by simp
qed

text \<open>
  Claim C9.  Whatever the layout and however the call ends (shards returned, nil
  returned, or a fault), the buffer of messages after \<open>ApplyLayout\<close> is the buffer
  before it: no entry is removed or changed.
\<close>

theorem ApplyLayout_keeps_messages:
  "messages (snd (ApplyLayout NewShard s cfg backing layout)) = messages s"
  by (simp add: ApplyLayout_def mutex_Lock_def mutex_Unlock_def Let_def
           split: sum.splits option.splits)

theorem ApplyLayout_keeps_messages_witness:
  "messages (snd (ApplyLayout shard_of replica5 cfg1 ''cpu'' [7])) = [7 \<mapsto> msg7] \<and>
   messages (snd (ApplyLayout shard_of replica5 cfg1 ''cpu'' [8])) = [7 \<mapsto> msg7]"
  using ApplyLayout_keeps_messages[of shard_of replica5 cfg1 "''cpu''" "[7]"]
        ApplyLayout_keeps_messages[of shard_of replica5 cfg1 "''cpu''" "[8]"]
  by (simp add: replica5_def)


lemma ApplyLayout_frame:
  "snapshotID (snd (ApplyLayout NewShard s cfg backing layout)) = snapshotID s \<and>
   shards (snd (ApplyLayout NewShard s cfg backing layout)) = shards s \<and>
   config (snd (ApplyLayout NewShard s cfg backing layout)) = config s \<and>
   layoutAddr (snd (ApplyLayout NewShard s cfg backing layout)) = layoutAddr s"
  by (simp add: ApplyLayout_def mutex_Lock_def mutex_Unlock_def Let_def
           split: sum.splits option.splits)

lemma word_succ_le:
  fixes j :: uint64
  assumes "j < n" "j \<le> k" "j \<noteq> k"
  shows "j + 1 \<le> k"
  using assms by unat_arith

lemma ApplyLayout_items_resolved:
  assumes "ApplyLayout_items msgs cfg layout i n j data = Inr (Some d)"
    and "j \<le> k" "k < n"
  shows "unat (i * n + k) < length layout \<and> msgs (layout ! unat (i * n + k)) \<noteq> None"
  using assms
proof (induction msgs cfg layout i n j data rule: ApplyLayout_items.induct)
  case (1 msgs cfg layout i n j data)
  from "1.prems" have jn: "j < n" by simp
  from "1.prems"(1) jn
  have here: "unat (i * n + j) < length layout \<and> msgs (layout ! unat (i * n + j)) \<noteq> None"
    by (subst (asm) ApplyLayout_items.simps)
       (auto simp: Let_def split: if_splits option.splits)
  show ?case
  proof (cases "j = k")
    case True
    with here show ?thesis by simp
  next
    case False
    with jn "1.prems" have le: "j + 1 \<le> k" by (intro word_succ_le)
    from here obtain msg where msg: "msgs (layout ! unat (i * n + j)) = Some msg" by auto
    from "1.prems"(1) jn msg here
    have ok: "\<not> (j * DataSize cfg + DataSize cfg < j * DataSize cfg \<or>
                length data < unat (j * DataSize cfg + DataSize cfg))"
         "\<not> length (WData msg) < unat (DataSize cfg)"
      and rec: "ApplyLayout_items msgs cfg layout i n (j + 1)
             (take (unat (j * DataSize cfg)) data @ take (unat (DataSize cfg)) (WData msg) @
              drop (unat (j * DataSize cfg + DataSize cfg)) data) = Inr (Some d)"
      by (subst (asm) ApplyLayout_items.simps; simp add: Let_def split: if_splits)+
    from here have len: "\<not> length layout \<le> unat (i * n + j)" by simp
    show ?thesis
      by (rule "1.IH"[OF jn refl refl len msg ok rec le "1.prems"(3)])
  qed
qed


lemma ApplyLayout_shards_resolved:
  assumes "ApplyLayout_shards NewShard msgs cfg backing layout i shs = Inr (Some r)"
    and "i \<le> m" "m < NumShardsPerGroup cfg" "k < NumBucketsPerShard cfg * BucketDepth cfg"
  shows "unat (m * (NumBucketsPerShard cfg * BucketDepth cfg) + k) < length layout \<and>
         msgs (layout ! unat (m * (NumBucketsPerShard cfg * BucketDepth cfg) + k)) \<noteq> None"
  using assms
proof (induction NewShard msgs cfg backing layout i shs rule: ApplyLayout_shards.induct)
  case (1 NewShard msgs cfg backing layout i shs)
  let ?n = "NumBucketsPerShard cfg * BucketDepth cfg"
  let ?bs = "sint (BucketDepth cfg * DataSize cfg)"
  from "1.prems" have iN: "i < NumShardsPerGroup cfg" by simp
  from "1.prems"(1) iN obtain data where
    items: "ApplyLayout_items msgs cfg layout i ?n 0 (replicate (unat (?n * DataSize cfg)) 0)
              = Inr (Some data)"
    and len: "\<not> length shs \<le> unat i"
    and rec: "ApplyLayout_shards NewShard msgs cfg backing layout (i + 1)
                (shs[unat i := Some (NewShard ?bs data backing)]) = Inr (Some r)"
    by (subst (asm) ApplyLayout_shards.simps)
       (auto simp: Let_def split: if_splits sum.splits option.splits)
  show ?case
  proof (cases "i = m")
    case True
    from ApplyLayout_items_resolved[OF items _ "1.prems"(4)] True show ?thesis by simp
  next
    case False
    with iN "1.prems" have le: "i + 1 \<le> m" by (intro word_succ_le)
    show ?thesis
      by (rule "1.IH"[OF iN refl refl refl items refl len rec le "1.prems"(3,4)])
  qed
qed

text \<open>What a successful apply has seen: every position the loops read holds a stored ID.\<close>

lemma ApplyLayout_Some_resolved:
  assumes "fst (ApplyLayout NewShard s cfg backing layout) = Inr (Some shs)"
    and "m < NumShardsPerGroup cfg" "k < NumBucketsPerShard cfg * BucketDepth cfg"
  shows "unat (m * (NumBucketsPerShard cfg * BucketDepth cfg) + k) < length layout \<and>
         messages s (layout ! unat (m * (NumBucketsPerShard cfg * BucketDepth cfg) + k)) \<noteq> None"
proof -
  from assms(1) have "ApplyLayout_shards NewShard (messages s) cfg backing layout 0
          (replicate (unat (NumShardsPerGroup cfg)) None) = Inr (Some shs)"
    by (auto simp: ApplyLayout_def mutex_Lock_def mutex_Unlock_def Let_def
             split: sum.splits option.splits if_splits)
  from ApplyLayout_shards_resolved[OF this _ assms(2,3)] show ?thesis by simp
qed

lemma SetLayoutAddr_frame:
  "snapshotID (snd (SetLayoutAddr s addr)) = snapshotID s \<and>
   shards (snd (SetLayoutAddr s addr)) = shards s \<and>
   messages (snd (SetLayoutAddr s addr)) = messages s \<and>
   config (snd (SetLayoutAddr s addr)) = config s \<and>
   pirBacking (snd (SetLayoutAddr s addr)) = pirBacking s \<and>
   group (snd (SetLayoutAddr s addr)) = group s \<and>
   msgLock (snd (SetLayoutAddr s addr)) = msgLock s"
  by (simp add: SetLayoutAddr_def mutex_Lock_def mutex_Unlock_def mutex_RLock_def Let_def)


lemma SetLayoutAddr_Inr:
  "SetLayoutAddr s addr = (Inr u, s') \<Longrightarrow> s' = s\<lparr> layoutAddr := addr \<rparr> \<and> \<not> lock s"
  by (auto simp: SetLayoutAddr_def mutex_Lock_def mutex_Unlock_def mutex_RLock_def Let_def
           split: if_splits)
















lemma Write_stored_by_Write:
  assumes "stored_by_Write s"
  shows "stored_by_Write (snd (Write s args))"
  using assms
  by (auto simp: Write_def stored_by_Write_def mutex_Lock_def mutex_Unlock_def Let_def
           split: if_splits)

text \<open>
  Claim C3.  A layout that names a message ID missing from the buffer.  Called on its
  own (with \<open>lock\<close> free), \<open>ApplyLayout\<close> does not return nil: on the missing ID it
  releases \<open>lock\<close>, which nobody holds, and the run ends in the fatal error of unlocking
  an unlocked mutex, with \<open>msgLock\<close> still held.  Called by \<open>GetLayout\<close> (which holds
  \<open>lock\<close>), it returns nil, and \<open>GetLayout\<close>'s own \<open>Unlock\<close> is then the fatal error.
  Snapshot ID and shards are untouched in each case.
\<close>

theorem ApplyLayout_missing_ID_fault:
  "ApplyLayout shard_of replica0 cfg1 ''cpu'' [7] =
     (Inl UnlockOfUnlocked, replica0\<lparr> msgLock := True \<rparr>) \<and>
   ApplyLayout shard_of (replica0\<lparr> lock := True \<rparr>) cfg1 ''cpu'' [7] =
     (Inr None, replica0\<lparr> msgLock := True \<rparr>) \<and>
   GetLayout (rpc_ok [7]) shard_of replica0 ''coord'' 1 =
     (Inl UnlockOfUnlocked, replica0\<lparr> layoutAddr := ''coord'', msgLock := True \<rparr>)"
  by (simp add: GetLayout_def SetLayoutAddr_def ApplyLayout_def ApplyLayout_shards.simps
        ApplyLayout_items.simps mutex_Lock_def mutex_Unlock_def mutex_RLock_def
        replica0_def NewServer_def cfg1_def rpc_ok_def)





subsection \<open>The topic handle\<close>

lemma length_in_place [simp]: "length (in_place old new) = length old"
  by (simp add: in_place_def)

lemma length_strip_pads [simp]: "length (strip_pads Overlay tds data) = length data"
  by (induction tds arbitrary: data) simp_all

lemma PutUvarint_loop_uvarint:
  "i + length (uvarint x) \<le> length buf \<Longrightarrow>
   PutUvarint_loop buf i x =
     Inr (take i buf @ uvarint x @ drop (i + length (uvarint x)) buf, i + length (uvarint x))"
proof (induction buf i x rule: PutUvarint_loop.induct)
  case (1 buf i x)
  show ?case
  proof (cases "0x80 \<le> x")
    case False
    with "1.prems" have i: "i < length buf" by (subst (asm) uvarint.simps) simp
    from False have u: "uvarint x = [ucast x]" by (subst uvarint.simps) simp
    from False i show ?thesis
      by (subst PutUvarint_loop.simps) (simp add: u upd_conv_take_nth_drop)
  next
    case True
    then have u: "uvarint x = (ucast x OR 0x80) # uvarint (drop_bit 7 x)"
      by (subst uvarint.simps) simp
    with "1.prems" have i: "i < length buf"
      and p: "(i + 1) + length (uvarint (drop_bit 7 x)) \<le> length (buf[i := ucast x OR 0x80])"
      by simp_all
    from i have ni: "\<not> length buf \<le> i" by simp
    have "PutUvarint_loop buf i x =
            PutUvarint_loop (buf[i := ucast x OR 0x80]) (i + 1) (drop_bit 7 x)"
      using True ni by (subst PutUvarint_loop.simps) simp
    also have "\<dots> = Inr (take (i + 1) (buf[i := ucast x OR 0x80]) @ uvarint (drop_bit 7 x) @
                 drop (i + 1 + length (uvarint (drop_bit 7 x))) (buf[i := ucast x OR 0x80]),
                 i + 1 + length (uvarint (drop_bit 7 x)))"
      by (rule "1.IH"[OF True ni p])
    also have "take (i + 1) (buf[i := ucast x OR 0x80]) = take i buf @ [ucast x OR 0x80]"
      using i by (simp add: take_Suc_conv_app_nth)
    finally show ?thesis by (simp add: u)
  qed
qed

lemma length_uvarint_bound:
  "unat x < 2 ^ (7 * Suc k) \<Longrightarrow> length (uvarint x) \<le> Suc k"
proof (induction k arbitrary: x)
  case 0
  then have "\<not> 0x80 \<le> x" by (simp add: word_le_nat_alt)
  then show ?case by (subst uvarint.simps) simp
next
  case (Suc k)
  show ?case
  proof (cases "0x80 \<le> x")
    case False
    then show ?thesis by (subst uvarint.simps) simp
  next
    case True
    have "unat (drop_bit 7 x) = unat x div 2 ^ 7" by (simp add: drop_bit_eq_div unat_div)
    also have "\<dots> < 2 ^ (7 * Suc k)"
      using Suc.prems by (simp add: less_mult_imp_div_less power_add)
    finally have "length (uvarint (drop_bit 7 x)) \<le> Suc k" by (rule Suc.IH)
    with True show ?thesis by (subst uvarint.simps) simp
  qed
qed

lemma length_uvarint_le: "length (uvarint x) \<le> 10"
proof -
  have "unat x < 2 ^ 64" using unsigned_less[of x] by simp
  also have "(2::nat) ^ 64 \<le> 2 ^ (7 * Suc 9)" by simp
  finally show ?thesis using length_uvarint_bound[of x 9] by simp
qed

lemma uvarint_nonempty: "uvarint x \<noteq> []"
  by (subst uvarint.simps) simp

lemma seqNoBytes_uvarint:
  "seqNoBytes x = Inr (uvarint x @ replicate (24 - length (uvarint x)) 0)"
  using length_uvarint_le[of x]
  by (simp add: seqNoBytes_def PutUvarint_def PutUvarint_loop_uvarint)

lemma uvarint_small: "x < 0x80 \<Longrightarrow> uvarint x = [ucast x]"
proof -
  assume "x < 0x80"
  then have "\<not> 0x80 \<le> x" by (simp only: not_le)
  then show ?thesis by (subst uvarint.simps) simp
qed

lemma Decrypt_not_isl:
  "length c < 64 \<or> 80 \<le> length c \<Longrightarrow> \<not> isl (Decrypt Verify Open h c nonce)"
  by (auto simp: Decrypt_def SignatureSize_def Overhead_def Let_def
           split: option.splits)

lemma first_decrypted_step:
  "dec c = Inr (pt, e) \<Longrightarrow>
   first_decrypted dec (c # cs) = (case e of None \<Rightarrow> pt | Some err \<Rightarrow> first_decrypted dec cs)"
  by (simp split: option.splits)

lemma unat_of_nat64: "n < 2 ^ 64 \<Longrightarrow> unat (of_nat n :: uint64) = n"
  by (simp add: unat_of_nat)

lemma retrieve_loop_scan:
  fixes dataSize :: uint64
  assumes d: "0 < unat dataSize"
    and cap: "length arr < 2 ^ 64"
    and len: "len = m * unat dataSize" "len \<le> length arr"
    and room: "\<forall>t<m. t * unat dataSize + 4 \<le> length arr"
    and ret: "\<forall>t<m. \<not> isl (Decrypt Verify Open h
                            (take (unat dataSize) (drop (t * unat dataSize) arr)) nonce)"
    and t: "t \<le> m"
  shows "retrieve_loop Verify Open h nonce arr len dataSize (of_nat (t * unat dataSize)) =
         Inr (first_decrypted (\<lambda>c. Decrypt Verify Open h c nonce)
                (map (\<lambda>t. take (unat dataSize) (drop (t * unat dataSize) arr)) [t..<m]))"
  using t
proof (induction "m - t" arbitrary: t)
  case 0
  then have tm: "t = m" by simp
  have "unat (of_nat (m * unat dataSize) :: uint64) = m * unat dataSize"
    by (rule unat_of_nat64) (use len cap in simp)
  with tm len show ?case by (subst retrieve_loop.simps) simp
next
  case (Suc k)
  let ?d = "unat dataSize"
  define i :: uint64 where "i = of_nat (t * ?d)"
  define i' :: uint64 where "i' = of_nat (Suc t * ?d)"
  from Suc have tm: "t < m" by simp
  then have up: "[t..<m] = t # [Suc t..<m]" by (simp add: upt_conv_Cons)
  from tm have le: "Suc t * ?d \<le> m * ?d" by (simp add: mult_le_mono1 del: mult_Suc)
  with len cap have b: "Suc t * ?d < 2 ^ 64" "Suc t * ?d \<le> length arr" by simp_all
  have ui: "unat i = t * ?d" unfolding i_def by (rule unat_of_nat64) (use b in simp)
  have nxt: "i + dataSize = i'" by (simp add: i_def i'_def)
  have un: "unat i' = Suc t * ?d" unfolding i'_def by (rule unat_of_nat64) (use b in simp)
  have "t * ?d < m * ?d" using tm d by simp
  then have lt: "unat i < len" by (simp only: ui len)
  have nolt: "\<not> i' < i" by (simp add: word_less_nat_alt un ui)
  have hi: "\<not> length arr < unat i'" using un b by simp
  have sl: "take (unat i' - unat i) (drop (unat i) arr) = take ?d (drop (t * ?d) arr)"
    by (simp add: un ui)
  from ret tm have "\<not> isl (Decrypt Verify Open h (take ?d (drop (t * ?d) arr)) nonce)"
    by simp
  then obtain pt e where
    dec: "Decrypt Verify Open h (take ?d (drop (t * ?d) arr)) nonce = Inr (pt, e)"
    by (cases "Decrypt Verify Open h (take ?d (drop (t * ?d) arr)) nonce") auto
  have d0: "dataSize \<noteq> 0" using d by auto
  have i4: "\<not> (i + 4 < i \<or> length arr < unat (i + 4))"
  proof -
    from room tm have s2: "t * ?d + 4 \<le> length arr" by simp
    with cap have s1: "t * ?d + 4 < 2 ^ 64" by simp
    have "i + 4 = of_nat (t * ?d + 4)" by (simp add: i_def)
    then have "unat (i + 4) = t * ?d + 4"
      using unat_of_nat64[OF s1] by (simp only:)
    with s2 ui show ?thesis by (simp add: word_less_nat_alt)
  qed
  have ih: "retrieve_loop Verify Open h nonce arr len dataSize i' =
         Inr (first_decrypted (\<lambda>c. Decrypt Verify Open h c nonce)
                (map (\<lambda>t. take ?d (drop (t * ?d) arr)) [Suc t..<m]))"
    unfolding i'_def using Suc.hyps(2) tm by (intro Suc.hyps(1)) simp_all
  have "retrieve_loop Verify Open h nonce arr len dataSize i =
          Inr (first_decrypted (\<lambda>c. Decrypt Verify Open h c nonce)
                (map (\<lambda>t. take ?d (drop (t * ?d) arr)) [t..<m]))"
  proof (cases e)
    case None
    with dec lt nolt hi sl show ?thesis
      by (subst retrieve_loop.simps) (simp add: up nxt)
  next
    case (Some err)
    with dec lt nolt hi sl d0 i4 ih show ?thesis
      by (subst retrieve_loop.simps) (simp add: up nxt)
  qed
  then show ?case by (simp only: i_def)
qed

lemma little_endian_small:
  assumes "x < 0x80"
  shows "little_endian 24 x = ucast x # replicate 23 0"
proof (rule nth_equalityI)
  show "length (little_endian 24 x) = length (ucast x # replicate 23 (0::byte))"
    by (simp add: little_endian_def)
next
  fix k
  assume "k < length (little_endian 24 x)"
  then have k: "k < 24" by (simp add: little_endian_def)
  from assms have ux: "unat x < 128" by (simp add: word_less_nat_alt)
  show "little_endian 24 x ! k = (ucast x # replicate 23 (0::byte)) ! k"
  proof (cases k)
    case 0
    with k show ?thesis by (simp add: little_endian_def)
  next
    case (Suc j)
    have "(128::nat) \<le> 2 ^ 8" by simp
    also have "(2::nat) ^ 8 \<le> 2 ^ (8 * k)" using Suc by (intro power_increasing) simp_all
    finally have "unat x < 2 ^ (8 * k)" using ux by simp
    then have "unat x div 2 ^ (8 * k) = 0" by simp
    moreover have "unat (drop_bit (8 * k) x) = drop_bit (8 * k) (unat x)"
      by (rule unat_drop_bit_eq)
    ultimately have "unat (drop_bit (8 * k) x) = 0" by (simp only: drop_bit_eq_div)
    then have "drop_bit (8 * k) x = 0" by (simp add: unat_eq_0)
    with k Suc show ?thesis by (simp add: little_endian_def)
  qed
qed

lemma le_value_zeros: "le_value (replicate m 0) = 0"
  by (induction m) simp_all

lemma le_value_append_zeros: "le_value (xs @ replicate m 0) = le_value xs"
  by (induction xs) (simp_all add: le_value_zeros)

lemma little_endian_Suc:
  "little_endian (Suc n) x = ucast x # little_endian n (drop_bit 8 x)"
proof -
  have "map (\<lambda>k. ucast (drop_bit (8 * k) x) :: byte) [0..<Suc n] =
        ucast (drop_bit (8 * 0) x) # map (\<lambda>k. ucast (drop_bit (8 * Suc k) x)) [0..<n]"
    by (rule map_upt_Suc)
  moreover have "drop_bit (8 * Suc k) x = drop_bit (8 * k) (drop_bit 8 x)" for k
    by (simp add: drop_bit_drop_bit add.commute)
  ultimately show ?thesis by (simp add: little_endian_def)
qed

lemma le_value_little_endian: "le_value (little_endian n x) = unat x mod 256 ^ n"
proof (induction n arbitrary: x)
  case 0
  show ?case by (simp add: little_endian_def)
next
  case (Suc n)
  have b: "unat (ucast x :: byte) = unat x mod 256" by (simp add: unsigned_ucast_eq take_bit_eq_mod)
  have d: "unat (drop_bit 8 x) = unat x div 256" by (simp add: drop_bit_eq_div unat_div)
  have "le_value (little_endian (Suc n) x) =
          unat x mod 256 + 256 * ((unat x div 256) mod 256 ^ n)"
    by (simp add: little_endian_Suc Suc.IH b d)
  also have "\<dots> = unat x mod (256 * 256 ^ n)" by (simp add: mod_mult2_eq)
  finally show ?case by simp
qed

lemma le_value_little_endian_24: "le_value (little_endian 24 x) = unat x"
proof -
  have "unat x < 2 ^ 64" using unsigned_less[of x] by simp
  also have "(2::nat) ^ 64 \<le> 256 ^ 24" by simp
  finally show ?thesis by (simp add: le_value_little_endian)
qed

lemma le_value_uvarint: "unat x \<le> le_value (uvarint x) \<and> (0x80 \<le> x \<longrightarrow> unat x < le_value (uvarint x))"
proof (induction x rule: uvarint.induct)
  case (1 x)
  show ?case
  proof (cases "0x80 \<le> x")
    case False
    then have "unat x < 128" by (simp add: word_le_nat_alt)
    then have "unat (ucast x :: byte) = unat x" by (simp add: unsigned_ucast_eq take_bit_eq_mod)
    with False show ?thesis by (subst uvarint.simps) simp
  next
    case True
    then have q: "1 \<le> unat x div 128" by (simp add: word_le_nat_alt)
    have d: "unat (drop_bit 7 x) = unat x div 128" by (simp add: drop_bit_eq_div unat_div)
    from "1.IH"[OF True] have "unat x div 128 \<le> le_value (uvarint (drop_bit 7 x))"
      by (simp add: d)
    then have "256 * (unat x div 128) \<le> le_value (uvarint x)"
      using True by (subst uvarint.simps) simp
    moreover have "unat x = 128 * (unat x div 128) + unat x mod 128" by simp
    moreover have "unat x mod 128 < 128" by simp
    ultimately have "unat x < le_value (uvarint x)" using q by linarith
    with True show ?thesis by simp
  qed
qed

lemma nonce_little_endian_iff:
  "uvarint x @ replicate (24 - length (uvarint x)) 0 = little_endian 24 x \<longleftrightarrow> x < 0x80"
proof
  assume e: "uvarint x @ replicate (24 - length (uvarint x)) 0 = little_endian 24 x"
  show "x < 0x80"
  proof (rule ccontr)
    assume "\<not> x < 0x80"
    then have "0x80 \<le> x" by (simp add: not_less)
    with le_value_uvarint[of x] have "unat x < le_value (uvarint x)" by simp
    also have "\<dots> = le_value (uvarint x @ replicate (24 - length (uvarint x)) 0)"
      by (simp add: le_value_append_zeros)
    also have "\<dots> = unat x" by (simp only: e le_value_little_endian_24)
    finally show False by simp
  qed
next
  assume "x < 0x80"
  then show "uvarint x @ replicate (24 - length (uvarint x)) 0 = little_endian 24 x"
    by (simp add: uvarint_small little_endian_small)
qed

text \<open>
  Claim C8, as the code has it.  Take a reply whose data is a whole number of strides
  of \<open>dataSize\<close> bytes, with room in its buffer for the four bytes that the failure
  log reads (\<open>dataSize\<close> at least 4, or spare capacity), and on whose strides
  \<open>Decrypt\<close> returns (as it always does for strides below 64 or of at least 80 bytes,
  \<open>Decrypt_not_isl\<close>).  Then \<open>retrieveResponse\<close> strips the pads of the trust domains,
  scans the data in strides of \<open>dataSize\<close>, attempts \<open>Decrypt\<close> at each stride, and
  returns the plaintext of the first stride whose decryption succeeds (nil when none
  succeeds).  The nonce of every attempt is the unsigned varint of \<open>Seqno\<close> at the
  start of a zeroed buffer of 24 bytes; it is the 24-byte little-endian value of
  \<open>Seqno\<close> exactly when \<open>Seqno\<close> is below 128.
\<close>

theorem retrieveResponse_scans_strides:
  fixes dataSize :: uint64
  assumes "length (RData reply) = m * unat dataSize"
    and "length (RData reply) + length (RSpare reply) < 2 ^ 64"
    and "4 \<le> unat dataSize + length (RSpare reply)"
    and "\<forall>c \<in> set (strides (unat dataSize) (strip_pads Overlay (TD args) (RData reply))).
           \<not> isl (Decrypt Verify Open h c
                     (uvarint (Seqno h) @ replicate (24 - length (uvarint (Seqno h))) 0))"
  shows "retrieveResponse Overlay Verify Open h args reply dataSize =
           Inr (first_decrypted
                  (\<lambda>c. Decrypt Verify Open h c
                          (uvarint (Seqno h) @ replicate (24 - length (uvarint (Seqno h))) 0))
                  (strides (unat dataSize) (strip_pads Overlay (TD args) (RData reply)))) \<and>
         length (uvarint (Seqno h) @ replicate (24 - length (uvarint (Seqno h))) 0) = 24 \<and>
         (uvarint (Seqno h) @ replicate (24 - length (uvarint (Seqno h))) 0 =
            little_endian 24 (Seqno h) \<longleftrightarrow> Seqno h < 0x80)"
proof -
  let ?d = "unat dataSize"
  let ?data = "strip_pads Overlay (TD args) (RData reply)"
  let ?nonce = "uvarint (Seqno h) @ replicate (24 - length (uvarint (Seqno h))) 0"
  define arr where "arr = ?data @ RSpare reply"
  have len: "length ?data = m * ?d" using assms(1) by simp
  have unf: "retrieveResponse Overlay Verify Open h args reply dataSize =
          retrieve_loop Verify Open h ?nonce arr (length ?data) dataSize 0"
    by (simp add: retrieveResponse_def seqNoBytes_uvarint arr_def)
  have 1: "retrieveResponse Overlay Verify Open h args reply dataSize =
           Inr (first_decrypted (\<lambda>c. Decrypt Verify Open h c ?nonce) (strides ?d ?data))"
  proof (cases "?d = 0")
    case True
    with len have e: "length ?data = 0" by simp
    then have "strides ?d ?data = []" by (simp add: strides_def)
    moreover have "retrieve_loop Verify Open h ?nonce arr (length ?data) dataSize 0 = Inr None"
      using e by (subst retrieve_loop.simps) simp
    ultimately show ?thesis using unf by simp
  next
    case False
    then have d0: "0 < ?d" by simp
    have le: "length ?data \<le> length arr" by (simp add: arr_def)
    have cap: "length arr < 2 ^ 64" using assms(2) by (simp add: arr_def)
    have div: "length ?data div ?d = m" using len d0 by simp
    have in_data: "t * ?d + ?d \<le> length ?data" if "t < m" for t
    proof -
      from that have "Suc t * ?d \<le> m * ?d" by (simp add: mult_le_mono1 del: mult_Suc)
      then show ?thesis using len by simp
    qed
    have same_t: "take ?d (drop (t * ?d) arr) = take ?d (drop (t * ?d) ?data)" if "t < m" for t
      using in_data[OF that] by (simp add: arr_def)
    have same: "map (\<lambda>t. take ?d (drop (t * ?d) arr)) [0..<m] =
                map (\<lambda>t. take ?d (drop (t * ?d) ?data)) [0..<m]"
      by (rule map_cong[OF refl]) (simp add: same_t)
    have room: "\<forall>t<m. t * ?d + 4 \<le> length arr"
    proof (intro allI impI)
      fix t
      assume "t < m"
      from in_data[OF this] assms(3) show "t * ?d + 4 \<le> length arr"
        by (simp add: arr_def)
    qed
    have ret: "\<forall>t<m. \<not> isl (Decrypt Verify Open h (take ?d (drop (t * ?d) arr)) ?nonce)"
    proof (intro allI impI)
      fix t
      assume t: "t < m"
      have "set (strides ?d ?data) = (\<lambda>t. take ?d (drop (t * ?d) ?data)) ` {0..<m}"
        unfolding strides_def div by simp
      with t have "take ?d (drop (t * ?d) ?data) \<in> set (strides ?d ?data)"
        by (simp only: image_eqI atLeastLessThan_iff le0 simp_thms)
      with assms(4) have "\<not> isl (Decrypt Verify Open h (take ?d (drop (t * ?d) ?data)) ?nonce)"
        by (rule bspec)
      then show "\<not> isl (Decrypt Verify Open h (take ?d (drop (t * ?d) arr)) ?nonce)"
        unfolding same_t[OF t] .
    qed
    have "retrieve_loop Verify Open h ?nonce arr (length ?data) dataSize (of_nat (0 * ?d)) =
            Inr (first_decrypted (\<lambda>c. Decrypt Verify Open h c ?nonce)
                   (map (\<lambda>t. take ?d (drop (t * ?d) arr)) [0..<m]))"
      by (rule retrieve_loop_scan[OF d0 cap len le room ret]) simp
    then have "retrieve_loop Verify Open h ?nonce arr (length ?data) dataSize 0 =
            Inr (first_decrypted (\<lambda>c. Decrypt Verify Open h c ?nonce) (strides ?d ?data))"
      unfolding same strides_def div by simp
    with unf show ?thesis by (simp only:)
  qed
  have 2: "length ?nonce = 24" using length_uvarint_le[of "Seqno h"] by simp
  have 3: "?nonce = little_endian 24 (Seqno h) \<longleftrightarrow> Seqno h < 0x80"
    by (rule nonce_little_endian_iff)
  from 1 2 3 show ?thesis by blast
qed

theorem retrieveResponse_scans_strides_witness:
  "length (RData \<lparr> RData = replicate 104 0, RSpare = [] \<rparr>) = 1 * unat (104 :: uint64) \<and>
   retrieveResponse overlay_none verify_all open_nonce handle128 \<lparr> TD = [] \<rparr>
     \<lparr> RData = replicate 104 0, RSpare = [] \<rparr> 104 =
   Inr (first_decrypted
          (\<lambda>c. Decrypt verify_all open_nonce handle128 c
                  (uvarint (Seqno handle128) @ replicate (24 - length (uvarint (Seqno handle128))) 0))
          (strides 104 (replicate 104 0))) \<and>
   first_decrypted
          (\<lambda>c. Decrypt verify_all open_nonce handle128 c
                  (uvarint (Seqno handle128) @ replicate (24 - length (uvarint (Seqno handle128))) 0))
          (strides 104 (replicate 104 0)) = Some ([0x80, 0x01] @ replicate 22 0) \<and>
   retrieveResponse overlay_none verify_all open_nonce handle128 \<lparr> TD = [] \<rparr>
     \<lparr> RData = replicate 16 0, RSpare = [] \<rparr> 8 = Inr None \<and>
   \<not> Seqno handle128 < 0x80 \<and>
   uvarint (Seqno handle128) @ replicate (24 - length (uvarint (Seqno handle128))) 0 \<noteq>
     little_endian 24 (Seqno handle128)"
proof -
  let ?nonce = "uvarint (Seqno handle128) @ replicate (24 - length (uvarint (Seqno handle128))) 0"
  have b: "length (RData \<lparr> RData = replicate 104 0, RSpare = [] \<rparr>) = 1 * unat (104 :: uint64)"
    by simp
  have c: "length (RData \<lparr> RData = replicate 104 (0::byte), RSpare = [] \<rparr>) +
           length (RSpare \<lparr> RData = replicate 104 (0::byte), RSpare = [] \<rparr>) < 2 ^ 64"
    by simp
  have r: "4 \<le> unat (104 :: uint64) + length (RSpare \<lparr> RData = replicate 104 (0::byte), RSpare = [] \<rparr>)"
    by simp
  have f: "\<forall>c \<in> set (strides (unat (104 :: uint64))
                       (strip_pads overlay_none (TD \<lparr> TD = [] \<rparr>)
                          (RData \<lparr> RData = replicate 104 0, RSpare = [] \<rparr>))).
             \<not> isl (Decrypt verify_all open_nonce handle128 c ?nonce)"
    by (auto simp: strides_def intro!: Decrypt_not_isl)
  have e: "first_decrypted (\<lambda>c. Decrypt verify_all open_nonce handle128 c ?nonce)
             (strides 104 (replicate 104 0)) = Some ([0x80, 0x01] @ replicate 22 0)"
    by code_simp
  have b8: "length (RData \<lparr> RData = replicate 16 0, RSpare = [] \<rparr>) = 2 * unat (8 :: uint64)"
    by simp
  have c8: "length (RData \<lparr> RData = replicate 16 (0::byte), RSpare = [] \<rparr>) +
            length (RSpare \<lparr> RData = replicate 16 (0::byte), RSpare = [] \<rparr>) < 2 ^ 64"
    by simp
  have r8: "4 \<le> unat (8 :: uint64) + length (RSpare \<lparr> RData = replicate 16 (0::byte), RSpare = [] \<rparr>)"
    by simp
  have f8: "\<forall>c \<in> set (strides (unat (8 :: uint64))
                       (strip_pads overlay_none (TD \<lparr> TD = [] \<rparr>)
                          (RData \<lparr> RData = replicate 16 0, RSpare = [] \<rparr>))).
             \<not> isl (Decrypt verify_all open_nonce handle128 c ?nonce)"
    by (auto simp: strides_def intro!: Decrypt_not_isl)
  have e8: "first_decrypted (\<lambda>c. Decrypt verify_all open_nonce handle128 c ?nonce)
             (strides 8 (replicate 16 0)) = None"
    by code_simp
  have s: "\<not> Seqno handle128 < 0x80" by (simp add: handle128_def)
  from retrieveResponse_scans_strides[OF b c r f]
       retrieveResponse_scans_strides[OF b8 c8 r8 f8] b e e8 s
  show ?thesis by simp
qed

theorem retrieveResponse_nonce_counterexample:
  "retrieveResponse overlay_none verify_all open_nonce handle128 \<lparr> TD = [] \<rparr>
     \<lparr> RData = replicate 104 0, RSpare = [] \<rparr> 104 = Inr (Some ([0x80, 0x01] @ replicate 22 0)) \<and>
   little_endian 24 (Seqno handle128) = [0x80] @ replicate 23 0"
  by code_simp

text \<open>
  Claim C4, as the code has it.  On a handle with both keys set, a cyphertext of at
  least 64 bytes whose signature does not verify gives a nil plaintext and the error
  \<open>Invalid Signature\<close>; a cyphertext of at least 80 bytes whose signature verifies
  and whose box does not open gives a nil plaintext and the error
  \<open>Failed to decrypt\<close>.  The two errors are different values.
\<close>

theorem Decrypt_failures_differ:
  assumes "SharedSecret h = Some secret" "SigningPublicKey h = Some pk"
  shows "(64 \<le> length c \<and> \<not> Verify pk (take (length c - 64) c) (drop (length c - 64) c) \<longrightarrow>
            Decrypt Verify Open h c nonce = Inr (None, Some (errors_New ''Invalid Signature''))) \<and>
         (80 \<le> length c \<and> Verify pk (take (length c - 64) c) (drop (length c - 64) c) \<and>
          Open (take (length c - 64) c) nonce secret = None \<longrightarrow>
            Decrypt Verify Open h c nonce = Inr (None, Some (errors_New ''Failed to decrypt''))) \<and>
         errors_New ''Invalid Signature'' \<noteq> errors_New ''Failed to decrypt''"
proof -
  have n: "nat (int (length c) - 64) = length c - 64" by simp
  show ?thesis
    using assms by (auto simp: Decrypt_def SignatureSize_def Overhead_def Let_def n)
qed

theorem Decrypt_failures_differ_witness:
  "Decrypt verify_none open_never handle128 (replicate 80 0) (replicate 24 0) =
     Inr (None, Some (errors_New ''Invalid Signature'')) \<and>
   Decrypt verify_all open_never handle128 (replicate 80 0) (replicate 24 0) =
     Inr (None, Some (errors_New ''Failed to decrypt''))"
proof -
  have k: "SharedSecret handle128 = Some (replicate 32 1)"
          "SigningPublicKey handle128 = Some (replicate 32 2)"
    by (simp_all add: handle128_def)
  from Decrypt_failures_differ[OF k, of "replicate 80 0" verify_none open_never "replicate 24 0"]
       Decrypt_failures_differ[OF k, of "replicate 80 0" verify_all open_never "replicate 24 0"]
  show ?thesis by (simp add: verify_none_def verify_all_def open_never_def)
qed

theorem Decrypt_errors_counterexample:
  "Decrypt verify_none open_never handle128 (replicate 80 0) (replicate 24 0) \<noteq>
   Decrypt verify_all open_never handle128 (replicate 80 0) (replicate 24 0)"
  by (simp add: Decrypt_def handle128_def verify_none_def verify_all_def open_never_def
        SignatureSize_def Overhead_def)

subsection \<open>generatePoll\<close>

lemma xor_bytes_Nil [simp]: "xor_bytes [] b = []" "xor_bytes a [] = []"
  by (simp_all add: xor_bytes_def)

lemma xor_bytes_Cons [simp]: "xor_bytes (x # a) (y # b) = (x XOR y) # xor_bytes a b"
  by (simp add: xor_bytes_def)

lemma length_xor_bytes [simp]: "length (xor_bytes a b) = min (length a) (length b)"
  by (simp add: xor_bytes_def)

lemma xor_bytes_commute: "xor_bytes a b = xor_bytes b a"
proof (induction a arbitrary: b)
  case Nil
  show ?case by simp
next
  case (Cons x a)
  show ?case by (cases b) (simp_all add: Cons.IH xor.commute)
qed

lemma xor_bytes_assoc: "xor_bytes (xor_bytes a b) c = xor_bytes a (xor_bytes b c)"
proof (induction a arbitrary: b c)
  case Nil
  show ?case by simp
next
  case (Cons x a)
  show ?case
  proof (cases b)
    case Nil
    then show ?thesis by simp
  next
    case b: (Cons y b')
    show ?thesis by (cases c) (simp_all add: b Cons.IH xor.assoc)
  qed
qed

lemma xor_bytes_cancel: "length a \<le> length r \<Longrightarrow> xor_bytes (xor_bytes a r) r = a"
proof (induction a arbitrary: r)
  case Nil
  show ?case by simp
next
  case (Cons x a)
  then show ?case by (cases r) (simp_all add: xor.assoc)
qed

lemma foldl_xor_bytes_swap:
  "foldl xor_bytes (xor_bytes a r) xs = xor_bytes (foldl xor_bytes a xs) r"
proof (induction xs arbitrary: a)
  case Nil
  show ?case by simp
next
  case (Cons x xs)
  have "xor_bytes (xor_bytes a r) x = xor_bytes (xor_bytes a x) r"
    by (simp add: xor_bytes_assoc xor_bytes_commute[of r x])
  then show ?case by (simp add: Cons.IH)
qed

lemma length_foldl_xor_bytes: "length (foldl xor_bytes a xs) \<le> length a"
proof (induction xs arbitrary: a)
  case Nil
  show ?case by simp
next
  case (Cons x xs)
  have "length (foldl xor_bytes (xor_bytes a x) xs) \<le> length (xor_bytes a x)" by (rule Cons.IH)
  then show ?case by simp
qed

lemma xor_all_step:
  assumes "L \<noteq> []" "length (hd L) \<le> length r"
  shows "xor_all (L[0 := xor_bytes (hd L) r] @ [r]) = xor_all L"
proof -
  from assms(1) obtain a M where L: "L = a # M" by (cases L) auto
  have "length (foldl xor_bytes a M) \<le> length r"
    using length_foldl_xor_bytes[of a M] assms(2) L by simp
  then show ?thesis
    by (simp add: L xor_all_def foldl_xor_bytes_swap xor_bytes_cancel)
qed

lemma xor_into_eq:
  "length v0 = length r \<Longrightarrow>
   xor_into v0 r k = Inr (take k v0 @ xor_bytes (drop k v0) (drop k r))"
proof (induction v0 r k rule: xor_into.induct)
  case (1 v0 r k)
  show ?case
  proof (cases "k < length r")
    case False
    with "1.prems" show ?thesis by (subst xor_into.simps) simp
  next
    case True
    with "1.prems" have k: "k < length v0" by simp
    then have nk: "\<not> length v0 \<le> k" by simp
    let ?v = "v0[k := v0 ! k XOR r ! k]"
    have len: "length ?v = length r" using "1.prems" by simp
    have "xor_into v0 r k = xor_into ?v r (k + 1)"
      using True nk by (subst xor_into.simps) simp
    also have "\<dots> = Inr (take (k + 1) ?v @ xor_bytes (drop (k + 1) ?v) (drop (k + 1) r))"
      by (rule "1.IH"[OF True nk len])
    also have "take (k + 1) ?v = take k v0 @ [v0 ! k XOR r ! k]"
      using k by (simp add: take_Suc_conv_app_nth)
    also have "drop (k + 1) ?v = drop (Suc k) v0" by simp
    also have "(take k v0 @ [v0 ! k XOR r ! k]) @ xor_bytes (drop (Suc k) v0) (drop (k + 1) r)
                 = take k v0 @ xor_bytes (drop k v0) (drop k r)"
      using k True by (simp add: Cons_nth_drop_Suc[symmetric])
    finally show ?thesis .
  qed
qed

lemma length_FillBytes [simp]: "length (fst (FillBytes gen d b)) = length b"
  by (cases "gen d (length b)") (simp add: FillBytes_def)


lemma FillBytes_cases:
  obtains r d' where "FillBytes gen d b = (r, d')" "length r = length b"
proof -
  obtain r d' where e: "FillBytes gen d b = (r, d')" by (cases "FillBytes gen d b")
  with length_FillBytes[of gen d b] have "length r = length b" by simp
  with e show ?thesis by (rule that)
qed

lemma poll_domains_xor:
  assumes "1 \<le> j" "td \<noteq> []" "length (RequestVector (td ! 0)) = n"
  shows "\<exists>td' d'. poll_domains gen SeedLength n td d j = Inr (td', d') \<and>
           length td' = length td \<and>
           xor_all (map RequestVector td') = xor_all (map RequestVector (take j td))"
  using assms
proof (induction "length td - j" arbitrary: td d j)
  case 0
  then have "\<not> j < length td" by simp
  then show ?case by (subst poll_domains.simps) simp
next
  case (Suc k)
  then have jl: "j < length td" by simp
  obtain rv d1 where f1: "FillBytes gen d (replicate n 0) = (rv, d1)" and lrv: "length rv = n"
    by (rule FillBytes_cases[of gen d "replicate n 0"]) simp
  obtain ps d2 where f2: "FillBytes gen d1 (replicate SeedLength 0) = (ps, d2)"
    by (cases "FillBytes gen d1 (replicate SeedLength 0)")
  define td2 where "td2 = td[j := (td ! j)\<lparr> RequestVector := rv, PadSeed := ps \<rparr>]"
  define v0 where "v0 = xor_bytes (RequestVector (td ! 0)) rv"
  define td3 where "td3 = td2[0 := (td2 ! 0)\<lparr> RequestVector := v0 \<rparr>]"
  from Suc.prems have j0: "0 < j" "j \<noteq> 0" by simp_all
  have l2: "length td2 = length td" by (simp add: td2_def)
  have r0: "RequestVector (td2 ! 0) = RequestVector (td ! 0)"
    using j0 by (simp add: td2_def)
  have rj: "RequestVector (td2 ! j) = rv"
    using jl by (simp add: td2_def)
  have x: "xor_into (RequestVector (td2 ! 0)) (RequestVector (td2 ! j)) 0 = Inr v0"
    unfolding r0 rj v0_def using xor_into_eq[of "RequestVector (td ! 0)" rv 0] Suc.prems lrv
    by simp
  have l3: "length td3 = length td" by (simp add: td3_def l2)
  have ne3: "td3 \<noteq> []" using Suc.prems l3 by (metis length_0_conv)
  have lv0: "length (RequestVector (td3 ! 0)) = n"
    using Suc.prems lrv l2 by (simp add: td3_def v0_def)
  have x': "xor_into (RequestVector (td ! 0)) rv 0 = Inr v0"
    using x by (simp only: r0 rj)
  have step: "poll_domains gen SeedLength n td d j =
                     poll_domains gen SeedLength n td3 d2 (j + 1)"
    using jl f1 f2 Suc.prems(2) x' j0
    by (subst poll_domains.simps) (simp add: Let_def td3_def td2_def)
  have k: "k = length td3 - (j + 1)" using Suc.hyps(2) l3 by simp
  have "1 \<le> j + 1" by simp
  from Suc.hyps(1)[OF k this ne3 lv0]
  obtain td' d' where res: "poll_domains gen SeedLength n td3 d2 (j + 1) = Inr (td', d')"
      "length td' = length td3"
      "xor_all (map RequestVector td') = xor_all (map RequestVector (take (j + 1) td3))"
    by blast
  let ?L = "map RequestVector (take j td)"
  have Lne: "?L \<noteq> []" using j0 Suc.prems by simp
  have hdL: "hd ?L = RequestVector (td ! 0)"
    using j0 Suc.prems by (simp add: hd_map hd_conv_nth)
  have t3: "take j td3 = (take j td)[0 := (td ! 0)\<lparr> RequestVector := v0 \<rparr>]"
    using j0 jl by (simp add: td3_def td2_def take_update_swap list_update_beyond)
  have "map RequestVector (take (j + 1) td3) =
          map RequestVector (take j td3) @ [RequestVector (td3 ! j)]"
    using jl l3 by (simp add: take_Suc_conv_app_nth)
  also have "RequestVector (td3 ! j) = rv" using j0 jl l2 rj by (simp add: td3_def)
  also have "map RequestVector (take j td3) = ?L[0 := xor_bytes (hd ?L) rv]"
    unfolding t3 hdL by (simp add: map_update v0_def)
  finally have "xor_all (map RequestVector (take (j + 1) td3)) = xor_all ?L"
    using xor_all_step[OF Lne, of rv] hdL Suc.prems lrv by simp
  with res step l3 show ?case by simp
qed


lemma length_one_hot [simp]: "length (one_hot n b) = n"
  by (simp add: one_hot_def)

lemma one_hot_bit:
  assumes "p < 8 * n"
  shows "bit (one_hot n b ! (p div 8)) (p mod 8) \<longleftrightarrow> p = b"
proof -
  from assms have k: "p div 8 < n" by simp
  show ?thesis
  proof (cases "p div 8 = b div 8")
    case True
    have "p = b \<longleftrightarrow> p mod 8 = b mod 8"
      using True by (metis div_mult_mod_eq)
    with k True show ?thesis
      by (auto simp: one_hot_def bit_exp_iff)
  next
    case False
    then have "p \<noteq> b" by auto
    with k False show ?thesis by (simp add: one_hot_def)
  qed
qed

lemma replicate_update_one_hot:
  fixes bucket :: uint64
  shows "(replicate n (0::byte))[unat (bucket div 8) :=
            replicate n 0 ! unat (bucket div 8) OR push_bit (unat (bucket mod 8)) 1] =
         one_hot n (unat bucket)"
proof (rule nth_equalityI)
  show "length ((replicate n (0::byte))[unat (bucket div 8) :=
            replicate n 0 ! unat (bucket div 8) OR push_bit (unat (bucket mod 8)) 1]) =
        length (one_hot n (unat bucket))"
    by simp
next
  fix i
  assume "i < length ((replicate n (0::byte))[unat (bucket div 8) :=
            replicate n 0 ! unat (bucket div 8) OR push_bit (unat (bucket mod 8)) 1])"
  then have i: "i < n" by simp
  have d: "unat (bucket div 8) = unat bucket div 8" by (simp add: unat_div)
  have m: "unat (bucket mod 8) = unat bucket mod 8" by (simp add: unat_mod)
  show "(replicate n (0::byte))[unat (bucket div 8) :=
            replicate n 0 ! unat (bucket div 8) OR push_bit (unat (bucket mod 8)) 1] ! i =
        one_hot n (unat bucket) ! i"
    using i by (simp add: one_hot_def d m nth_list_update)
qed

lemma replicate_update_one_hot_simp:
  fixes bucket :: uint64
  assumes "unat (bucket div 8) < n"
  shows "(replicate n (0::byte))[unat (bucket div 8) := 2 ^ unat (bucket mod 8)] =
         one_hot n (unat bucket)"
  using replicate_update_one_hot[of n bucket] assms by simp

lemma poll_args_Inr:
  assumes "poll_args gen SeedLength num nb bucket d = Inr (args, d')"
  shows "num \<noteq> 0 \<and> unat (bucket div 8) < unat ((nb + 7) div 8)"
  using assms
  by (auto simp: poll_args_def Let_def split: if_splits prod.splits sum.splits)

lemma poll_args_xor:
  assumes "num \<noteq> 0" "unat (bucket div 8) < unat ((nb + 7) div 8)"
  shows "\<exists>args d'. poll_args gen SeedLength num nb bucket d = Inr (args, d') \<and>
           length (TD args) = num \<and>
           xor_all (map RequestVector (TD args)) = one_hot (unat ((nb + 7) div 8)) (unat bucket)"
proof -
  let ?n = "unat ((nb + 7) div 8)"
  let ?td = "replicate num \<lparr> RequestVector = [], PadSeed = [] \<rparr>"
  obtain ps d1 where f: "FillBytes gen d (replicate SeedLength 0) = (ps, d1)"
    by (cases "FillBytes gen d (replicate SeedLength 0)")
  define td2 where "td2 = ?td[0 := \<lparr> RequestVector = one_hot ?n (unat bucket), PadSeed = ps \<rparr>]"
  have ne: "td2 \<noteq> []" using assms(1) by (simp add: td2_def)
  have l0: "length (RequestVector (td2 ! 0)) = ?n" using assms(1) by (simp add: td2_def)
  from poll_domains_xor[OF _ ne l0, of 1 gen SeedLength d1]
  obtain td' d' where r: "poll_domains gen SeedLength ?n td2 d1 1 = Inr (td', d')"
      "length td' = length td2"
      "xor_all (map RequestVector td') = xor_all (map RequestVector (take 1 td2))"
    by auto
  have t1: "take (Suc 0) td2 = [td2 ! 0]" using ne by (cases td2) simp_all
  have rv0: "RequestVector (td2 ! 0) = one_hot ?n (unat bucket)"
    using assms(1) by (simp add: td2_def)
  have x: "xor_all (map RequestVector td') = one_hot ?n (unat bucket)"
    using r(3) by (simp add: t1 xor_all_def rv0)
  have "poll_args gen SeedLength num nb bucket d = Inr (\<lparr> TD = td' \<rparr>, d')"
    using assms f r(1)
    by (simp add: poll_args_def Let_def replicate_update_one_hot_simp td2_def)
  with x r(2) show ?thesis by (simp add: td2_def)
qed

lemma ceil8_no_overflow:
  fixes nb :: uint64
  assumes "unat ((nb + 7) div 8) \<noteq> 0"
  shows "unat ((nb + 7) div 8) = (unat nb + 7) div 8"
proof -
  have lt: "unat nb < 2 ^ 64" using unsigned_less[of nb] by simp
  have a: "unat (nb + 7) = (unat nb + 7) mod 2 ^ 64" by (simp add: unat_word_ariths)
  have d: "unat ((nb + 7) div 8) = unat (nb + 7) div 8" by (simp add: unat_div)
  show ?thesis
  proof (cases "unat nb + 7 < 2 ^ 64")
    case True
    with a d show ?thesis by simp
  next
    case False
    then have "(unat nb + 7) mod 2 ^ 64 = unat nb + 7 - 2 ^ 64"
      using lt by (simp add: mod_if)
    with lt have "(unat nb + 7) mod 2 ^ 64 < 8" by simp
    with a d assms show ?thesis by simp
  qed
qed

lemma bucket_in_vector:
  fixes nb b :: uint64
  assumes "nb \<noteq> 0" "unat nb + 7 < 2 ^ 64"
  shows "unat ((b mod nb) div 8) < unat ((nb + 7) div 8)"
proof -
  have "unat (b mod nb) < unat nb" using assms(1) by (simp add: unat_mod unat_gt_0)
  then have "unat (b mod nb) div 8 < (unat nb + 7) div 8" by simp
  moreover have "unat (nb + 7) = unat nb + 7"
    using assms(2) by (simp add: unat_word_ariths)
  ultimately show ?thesis by (simp add: unat_div)
qed


lemma nextBuckets_eq:
  "nextBuckets KeyUint128 siphash h conf =
     (if NumBuckets conf = 0 then Inl DivideByZero
      else Inr (siphash (fst (KeyUint128 (Seed1 h))) (snd (KeyUint128 (Seed1 h)))
                  (uvarint (Seqno h) @ replicate (24 - length (uvarint (Seqno h))) 0)
                  mod NumBuckets conf,
                siphash (fst (KeyUint128 (Seed2 h))) (snd (KeyUint128 (Seed2 h)))
                  (uvarint (Seqno h) @ replicate (24 - length (uvarint (Seqno h))) 0)
                  mod NumBuckets conf))"
  by (simp add: nextBuckets_def seqNoBytes_uvarint Let_def split: prod.splits)

lemma nextBuckets_range:
  assumes "nextBuckets KeyUint128 siphash h conf = Inr (b1, b2)"
  shows "NumBuckets conf \<noteq> 0 \<and> unat b1 < unat (NumBuckets conf) \<and>
         unat b2 < unat (NumBuckets conf)"
proof -
  from assms have nz: "NumBuckets conf \<noteq> 0"
    by (auto simp: nextBuckets_eq split: if_splits)
  then have "0 < unat (NumBuckets conf)" by (simp add: unat_gt_0)
  with assms nz show ?thesis
    by (auto simp: nextBuckets_eq unat_mod split: if_splits)
qed

lemma generatePoll_unfold:
  assumes "SharedSecret h \<noteq> None" "SigningPublicKey h \<noteq> None"
    and "nextBuckets KeyUint128 siphash h (Config cc) = Inr (b1, b2)"
    and "poll_args gen SeedLength (length (TrustDomains cc)) (NumBuckets (Config cc)) b1 (drbg h)
           = Inr (args0, d1)"
    and "poll_args gen SeedLength (length (TrustDomains cc)) (NumBuckets (Config cc)) b2 d1
           = Inr (args1, d2)"
  shows "generatePoll KeyUint128 siphash gen SeedLength h cc =
           Inr (Inr (args0, args1), h\<lparr> drbg := d2 \<rparr>)"
  using assms by (simp add: generatePoll_def)

lemma generatePoll_Inr:
  assumes "generatePoll KeyUint128 siphash gen SeedLength h cc = Inr (Inr (args0, args1), h')"
  shows "\<exists>b1 b2 d1 d2.
           nextBuckets KeyUint128 siphash h (Config cc) = Inr (b1, b2) \<and>
           poll_args gen SeedLength (length (TrustDomains cc)) (NumBuckets (Config cc)) b1 (drbg h)
             = Inr (args0, d1) \<and>
           poll_args gen SeedLength (length (TrustDomains cc)) (NumBuckets (Config cc)) b2 d1
             = Inr (args1, d2)"
  using assms
  by (auto simp: generatePoll_def Let_def split: if_splits sum.splits prod.splits)

text \<open>
  Claim C1.  For a handle with both keys set and a configuration with at least one
  trust domain: \<open>generatePoll\<close> returns its two \<open>ReadArgs\<close> whenever \<open>NumBuckets\<close> is
  not zero and \<open>NumBuckets + 7\<close> does not overflow; and whenever it returns them, each
  has one entry per trust domain, and the byte-wise XOR of all trust domains' request
  vectors is the vector of \<open>ceil(NumBuckets/8)\<close> bytes whose only set bit is the bit of
  the corresponding bucket of \<open>nextBuckets\<close> at the handle's \<open>Seqno\<close> (bit \<open>b mod 8\<close> of
  byte \<open>b div 8\<close>).
\<close>

theorem generatePoll_masking:
  assumes "SharedSecret h \<noteq> None" "SigningPublicKey h \<noteq> None" "TrustDomains cc \<noteq> []"
  shows "(NumBuckets (Config cc) \<noteq> 0 \<and> unat (NumBuckets (Config cc)) + 7 < 2 ^ 64 \<longrightarrow>
           (\<exists>args0 args1 h'. generatePoll KeyUint128 siphash gen SeedLength h cc =
                                Inr (Inr (args0, args1), h'))) \<and>
         (\<forall>args0 args1 h'.
            generatePoll KeyUint128 siphash gen SeedLength h cc = Inr (Inr (args0, args1), h') \<longrightarrow>
            (\<exists>b1 b2. nextBuckets KeyUint128 siphash h (Config cc) = Inr (b1, b2) \<and>
               length (TD args0) = length (TrustDomains cc) \<and>
               length (TD args1) = length (TrustDomains cc) \<and>
               xor_all (map RequestVector (TD args0)) =
                 one_hot ((unat (NumBuckets (Config cc)) + 7) div 8) (unat b1) \<and>
               xor_all (map RequestVector (TD args1)) =
                 one_hot ((unat (NumBuckets (Config cc)) + 7) div 8) (unat b2) \<and>
               unat b1 < 8 * ((unat (NumBuckets (Config cc)) + 7) div 8) \<and>
               unat b2 < 8 * ((unat (NumBuckets (Config cc)) + 7) div 8) \<and>
               (\<forall>p < 8 * ((unat (NumBuckets (Config cc)) + 7) div 8).
                  (bit (xor_all (map RequestVector (TD args0)) ! (p div 8)) (p mod 8)
                     \<longleftrightarrow> p = unat b1) \<and>
                  (bit (xor_all (map RequestVector (TD args1)) ! (p div 8)) (p mod 8)
                     \<longleftrightarrow> p = unat b2))))"
proof (intro conjI impI allI)
  let ?nb = "NumBuckets (Config cc)"
  let ?num = "length (TrustDomains cc)"
  assume a: "?nb \<noteq> 0 \<and> unat ?nb + 7 < 2 ^ 64"
  have num: "?num \<noteq> 0" using assms(3) by simp
  obtain b1 b2 where nbk: "nextBuckets KeyUint128 siphash h (Config cc) = Inr (b1 mod ?nb, b2 mod ?nb)"
    using a by (simp add: nextBuckets_eq)
  have iv1: "unat ((b1 mod ?nb) div 8) < unat ((?nb + 7) div 8)"
    using a by (intro bucket_in_vector) simp_all
  have iv2: "unat ((b2 mod ?nb) div 8) < unat ((?nb + 7) div 8)"
    using a by (intro bucket_in_vector) simp_all
  from poll_args_xor[OF num iv1, where gen=gen and SeedLength=SeedLength and d="drbg h"]
  obtain args0 d1 where p0: "poll_args gen SeedLength ?num ?nb (b1 mod ?nb) (drbg h) = Inr (args0, d1)"
    by auto
  from poll_args_xor[OF num iv2, where gen=gen and SeedLength=SeedLength and d=d1]
  obtain args1 d2 where p1: "poll_args gen SeedLength ?num ?nb (b2 mod ?nb) d1 = Inr (args1, d2)"
    by auto
  from generatePoll_unfold[OF assms(1,2) nbk p0 p1]
  show "\<exists>args0 args1 h'. generatePoll KeyUint128 siphash gen SeedLength h cc =
                                Inr (Inr (args0, args1), h')"
    by blast
next
  fix args0 args1 h'
  let ?nb = "NumBuckets (Config cc)"
  let ?num = "length (TrustDomains cc)"
  let ?n = "(unat ?nb + 7) div 8"
  assume g: "generatePoll KeyUint128 siphash gen SeedLength h cc = Inr (Inr (args0, args1), h')"
  from generatePoll_Inr[OF g] obtain b1 b2 d1 d2 where
    nbk: "nextBuckets KeyUint128 siphash h (Config cc) = Inr (b1, b2)" and
    p0: "poll_args gen SeedLength ?num ?nb b1 (drbg h) = Inr (args0, d1)" and
    p1: "poll_args gen SeedLength ?num ?nb b2 d1 = Inr (args1, d2)"
    by blast
  from poll_args_Inr[OF p0] have i0: "?num \<noteq> 0" "unat (b1 div 8) < unat ((?nb + 7) div 8)"
    by simp_all
  from poll_args_Inr[OF p1] have i1: "unat (b2 div 8) < unat ((?nb + 7) div 8)" by simp
  from i0(2) have n: "unat ((?nb + 7) div 8) = ?n" by (intro ceil8_no_overflow) simp
  from poll_args_xor[OF i0, where gen=gen and SeedLength=SeedLength and d="drbg h"] p0
  have x0: "length (TD args0) = ?num" "xor_all (map RequestVector (TD args0)) = one_hot ?n (unat b1)"
    by (auto simp: n)
  from poll_args_xor[OF i0(1) i1, where gen=gen and SeedLength=SeedLength and d=d1] p1
  have x1: "length (TD args1) = ?num" "xor_all (map RequestVector (TD args1)) = one_hot ?n (unat b2)"
    by (auto simp: n)
  from nextBuckets_range[OF nbk] have r: "unat b1 < unat ?nb" "unat b2 < unat ?nb" by simp_all
  have "unat ?nb \<le> 8 * ?n" by simp
  with r have r8: "unat b1 < 8 * ?n" "unat b2 < 8 * ?n" by simp_all
  have bits: "\<forall>p < 8 * ?n.
                (bit (xor_all (map RequestVector (TD args0)) ! (p div 8)) (p mod 8) \<longleftrightarrow> p = unat b1) \<and>
                (bit (xor_all (map RequestVector (TD args1)) ! (p div 8)) (p mod 8) \<longleftrightarrow> p = unat b2)"
    unfolding x0 x1 by (simp add: one_hot_bit)
  from nbk x0 x1 r8 bits
  show "\<exists>b1 b2. nextBuckets KeyUint128 siphash h (Config cc) = Inr (b1, b2) \<and>
               length (TD args0) = length (TrustDomains cc) \<and>
               length (TD args1) = length (TrustDomains cc) \<and>
               xor_all (map RequestVector (TD args0)) = one_hot ?n (unat b1) \<and>
               xor_all (map RequestVector (TD args1)) = one_hot ?n (unat b2) \<and>
               unat b1 < 8 * ?n \<and> unat b2 < 8 * ?n \<and>
               (\<forall>p < 8 * ?n.
                  (bit (xor_all (map RequestVector (TD args0)) ! (p div 8)) (p mod 8)
                     \<longleftrightarrow> p = unat b1) \<and>
                  (bit (xor_all (map RequestVector (TD args1)) ! (p div 8)) (p mod 8)
                     \<longleftrightarrow> p = unat b2))"
    by blast
qed

theorem generatePoll_masking_witness:
  "SharedSecret handle_poll \<noteq> None \<and> SigningPublicKey handle_poll \<noteq> None \<and>
   TrustDomains cc16 \<noteq> [] \<and>
   generatePoll seed_key toy_hash counter_gen 2 handle_poll cc16 =
     Inr (Inr (\<lparr> TD = [\<lparr> RequestVector = [3, 0], PadSeed = [1, 2] \<rparr>,
                          \<lparr> RequestVector = [3, 4], PadSeed = [5, 6] \<rparr>] \<rparr>,
               \<lparr> TD = [\<lparr> RequestVector = [11, 10], PadSeed = [7, 8] \<rparr>,
                          \<lparr> RequestVector = [9, 10], PadSeed = [11, 12] \<rparr>] \<rparr>),
          handle_poll\<lparr> drbg := 13 \<rparr>) \<and>
   nextBuckets seed_key toy_hash handle_poll (Config cc16) = Inr (10, 1) \<and>
   xor_all [[3, 0], [3, 4]] = one_hot 2 10 \<and>
   xor_all [[11, 10], [9, 10]] = one_hot 2 1"
proof -
  have k: "SharedSecret handle_poll \<noteq> None" "SigningPublicKey handle_poll \<noteq> None"
    by (simp_all add: handle_poll_def)
  have t: "TrustDomains cc16 \<noteq> []" by (simp add: cc16_def)
  have g: "generatePoll seed_key toy_hash counter_gen 2 handle_poll cc16 =
     Inr (Inr (\<lparr> TD = [\<lparr> RequestVector = [3, 0], PadSeed = [1, 2] \<rparr>,
                          \<lparr> RequestVector = [3, 4], PadSeed = [5, 6] \<rparr>] \<rparr>,
               \<lparr> TD = [\<lparr> RequestVector = [11, 10], PadSeed = [7, 8] \<rparr>,
                          \<lparr> RequestVector = [9, 10], PadSeed = [11, 12] \<rparr>] \<rparr>),
          handle_poll\<lparr> drbg := 13 \<rparr>)"
    by code_simp
  have b: "nextBuckets seed_key toy_hash handle_poll (Config cc16) = Inr (10, 1)"
    by code_simp
  have n: "(unat (NumBuckets (Config cc16)) + 7) div 8 = 2" by (simp add: cc16_def)
  from generatePoll_masking[OF k t, of seed_key toy_hash counter_gen 2] g b
  have "xor_all [[3, 0], [3, 4]] = one_hot 2 10 \<and> xor_all [[11, 10], [9, 10]] = one_hot 2 1"
    by (simp add: n)
  with k t g b show ?thesis by simp
qed


subsection \<open>The PIR shard\<close>

lemma length_scan_bucket [simp]: "length (scan_bucket sh reqs reqStride j resp) = length resp"
  by (simp add: scan_bucket_def)

lemma length_fold_scan [simp]:
  "length (fold (scan_bucket sh reqs reqStride) js resp) = length resp"
  by (induction js arbitrary: resp) simp_all

lemma length_xor_of_buckets_le: "length (xor_of_buckets sh js) \<le> bucketSize sh"
  using length_foldl_xor_bytes[of "replicate (bucketSize sh) 0" "map (bucket_data sh) js"]
  by (simp add: xor_of_buckets_def)

lemma xor_of_buckets_snoc:
  "xor_of_buckets sh (js @ [j]) = xor_bytes (xor_of_buckets sh js) (bucket_data sh j)"
  by (simp add: xor_of_buckets_def)

lemma segment_index:
  fixes B :: nat
  assumes "k < B"
  shows "(i * B + k) div B = i" "(i * B + k) mod B = k"
  using assms by simp_all

lemma scan_invariant:
  assumes B: "0 < bucketSize sh"
    and j: "j \<le> GetNumBuckets sh"
    and i: "i < n"
  shows "response_at sh (fold (scan_bucket sh reqs reqStride) [0..<j]
                            (replicate (n * bucketSize sh) 0)) i =
         xor_of_buckets sh (filter (req_bit reqs reqStride i) [0..<j])"
  using j
proof (induction j)
  case 0
  from i have "Suc i * bucketSize sh \<le> n * bucketSize sh"
    by (intro mult_le_mono1) simp
  then have "bucketSize sh \<le> n * bucketSize sh - i * bucketSize sh" by simp
  then show ?case by (simp add: response_at_def xor_of_buckets_def min_def)
next
  case (Suc j)
  let ?B = "bucketSize sh"
  let ?D = "shardData sh"
  let ?R = "fold (scan_bucket sh reqs reqStride) [0..<j] (replicate (n * ?B) 0)"
  let ?X = "xor_of_buckets sh (filter (req_bit reqs reqStride i) [0..<j])"
  from Suc.prems have jn: "j < GetNumBuckets sh" by simp
  have ih: "response_at sh ?R i = ?X" using Suc.IH jn by simp
  have lenR: "length ?R = n * ?B" by simp
  from i have seg: "i * ?B + ?B \<le> n * ?B"
    using mult_le_mono1[of "Suc i" n ?B] by simp
  from seg have segB: "min ?B (n * ?B - i * ?B) = ?B" by linarith
  have lenRi: "\<And>r. length r = n * ?B \<Longrightarrow> length (response_at sh r i) = ?B"
    using segB by (simp add: response_at_def)
  from seg have iB: "i * ?B \<le> n * ?B" by linarith
  have nthRi: "\<And>r k. length r = n * ?B \<Longrightarrow> k < ?B \<Longrightarrow>
                 response_at sh r i ! k = r ! (i * ?B + k)"
    using iB by (simp add: response_at_def)
  have "length (response_at sh ?R i) = ?B"
    by (rule lenRi) simp
  then have lenX: "length ?X = ?B" by (simp only: ih)
  have "Suc j * ?B \<le> (length ?D div ?B) * ?B"
    using jn by (intro mult_le_mono1) (simp add: GetNumBuckets_def)
  also have "\<dots> \<le> length ?D" by simp
  finally have bd: "j * ?B + ?B \<le> length ?D" by simp
  then have lenbd: "length (bucket_data sh j) = ?B" by (simp add: bucket_data_def)
  have step: "fold (scan_bucket sh reqs reqStride) [0..<Suc j] (replicate (n * ?B) 0) =
              scan_bucket sh reqs reqStride j ?R"
    by simp
  have "response_at sh (scan_bucket sh reqs reqStride j ?R) i =
        (if req_bit reqs reqStride i j then xor_bytes ?X (bucket_data sh j) else ?X)"
  proof (rule nth_equalityI)
    show "length (response_at sh (scan_bucket sh reqs reqStride j ?R) i) =
          length (if req_bit reqs reqStride i j then xor_bytes ?X (bucket_data sh j) else ?X)"
      using lenX lenbd lenRi[of "scan_bucket sh reqs reqStride j ?R"] by simp
  next
    fix k
    assume "k < length (response_at sh (scan_bucket sh reqs reqStride j ?R) i)"
    then have k: "k < ?B" using lenRi[of "scan_bucket sh reqs reqStride j ?R"] by simp
    with seg have p: "i * ?B + k < n * ?B" by simp
    have Xk: "?X ! k = ?R ! (i * ?B + k)"
      unfolding ih[symmetric] by (rule nthRi) (use k in simp_all)
    have bk: "bucket_data sh j ! k = ?D ! (j * ?B + k)"
      using k bd by (simp add: bucket_data_def)
    have "response_at sh (scan_bucket sh reqs reqStride j ?R) i ! k =
          scan_bucket sh reqs reqStride j ?R ! (i * ?B + k)"
      by (rule nthRi) (use k in simp_all)
    also have "\<dots> = ?R ! (i * ?B + k) XOR
                 ?D ! (j * ?B + k) * of_bool (req_bit reqs reqStride i j)"
      using p k by (simp add: scan_bucket_def segment_index del: replicate.simps)
    also have "\<dots> = (if req_bit reqs reqStride i j then xor_bytes ?X (bucket_data sh j) else ?X) ! k"
      using k lenX lenbd by (simp add: Xk bk xor_bytes_def)
    finally show "response_at sh (scan_bucket sh reqs reqStride j ?R) i ! k =
          (if req_bit reqs reqStride i j then xor_bytes ?X (bucket_data sh j) else ?X) ! k" .
  qed
  then show ?case
    unfolding step by (simp add: xor_of_buckets_snoc)
qed

lemma selected_request:
  assumes "0 < reqStride" "nb \<le> reqStride * 8" "i < length reqs div reqStride"
  shows "selected (request reqs reqStride i) nb = filter (req_bit reqs reqStride i) [0..<nb]"
  unfolding selected_def
proof (rule filter_cong[OF refl])
  fix j
  assume "j \<in> set [0..<nb]"
  with assms(2) have jd: "j div 8 < reqStride" by auto
  have "Suc i * reqStride \<le> (length reqs div reqStride) * reqStride"
    using assms(3) by (intro mult_le_mono1) simp
  also have "\<dots> \<le> length reqs" by simp
  finally have "i * reqStride + reqStride \<le> length reqs" by simp
  with jd have "request reqs reqStride i ! (j div 8) = reqs ! (i * reqStride + j div 8)"
    by (simp add: request_def)
  then show "bit (request reqs reqStride i ! (j div 8)) (j mod 8) = req_bit reqs reqStride i j"
    by (simp add: req_bit_def)
qed

lemma Read_Inr:
  "Read sh reqs reqStride = Inr resp \<longleftrightarrow>
     0 < bucketSize sh \<and> 0 < reqStride \<and> length reqs mod reqStride = 0 \<and>
     GetNumBuckets sh \<le> reqStride * 8 \<and>
     resp = fold (scan_bucket sh reqs reqStride) [0..<GetNumBuckets sh]
              (replicate (length reqs div reqStride * bucketSize sh) 0)"
  by (auto simp: Read_def)

lemma Read_response:
  assumes "Read sh reqs reqStride = Inr resp" "i < length reqs div reqStride"
  shows "response_at sh resp i =
         xor_of_buckets sh (selected (request reqs reqStride i) (GetNumBuckets sh))"
proof -
  from assms(1) have w: "0 < bucketSize sh" "0 < reqStride" "GetNumBuckets sh \<le> reqStride * 8"
    and r: "resp = fold (scan_bucket sh reqs reqStride) [0..<GetNumBuckets sh]
              (replicate (length reqs div reqStride * bucketSize sh) 0)"
    by (simp_all add: Read_Inr)
  show ?thesis
    unfolding r selected_request[OF w(2,3) assms(2)]
    by (rule scan_invariant[OF w(1) order_refl assms(2)])
qed

lemma Read_returns:
  assumes "0 < bucketSize sh" "0 < reqStride" "length reqs mod reqStride = 0"
    and "GetNumBuckets sh \<le> reqStride * 8"
  shows "\<exists>resp. Read sh reqs reqStride = Inr resp"
  using assms by (simp add: Read_Inr)

text \<open>
  Claim C2.  For every shard and every batch that the read accepts, the response has
  one segment of \<open>bucketSize\<close> bytes per request, and the segment of request \<open>i\<close> is
  the byte-wise XOR of the data of the buckets whose bits are set in request vector
  \<open>i\<close>, each bucket being \<open>bucketSize\<close> contiguous bytes of the shard.  It is the same
  in every batch that has this vector as its request \<open>i\<close>, whatever the other requests
  select.
\<close>

theorem Read_batch_isolation:
  assumes "Read sh reqs reqStride = Inr resp" "i < length reqs div reqStride"
  shows "length resp = length reqs div reqStride * bucketSize sh \<and>
         response_at sh resp i =
           xor_of_buckets sh (selected (request reqs reqStride i) (GetNumBuckets sh)) \<and>
         (\<forall>reqs' resp'.
            Read sh reqs' reqStride = Inr resp' \<and> i < length reqs' div reqStride \<and>
            request reqs' reqStride i = request reqs reqStride i \<longrightarrow>
            response_at sh resp' i = response_at sh resp i)"
proof -
  have 1: "length resp = length reqs div reqStride * bucketSize sh"
    using assms(1) by (simp add: Read_Inr)
  have 2: "response_at sh resp i =
           xor_of_buckets sh (selected (request reqs reqStride i) (GetNumBuckets sh))"
    using assms by (rule Read_response)
  have 3: "response_at sh resp' i = response_at sh resp i"
    if "Read sh reqs' reqStride = Inr resp'" "i < length reqs' div reqStride"
       "request reqs' reqStride i = request reqs reqStride i" for reqs' resp'
    using Read_response[OF that(1,2)] that(3) 2 by simp
  from 1 2 3 show ?thesis by blast
qed

theorem Read_batch_isolation_witness:
  "test_reqs 16 = Inr [2, 0, 1, 0, 7, 0] \<and>
   Read shard16 [2, 0, 1, 0, 7, 0] 2 =
     Inr (bucket_data shard16 1 @ bucket_data shard16 0 @ map (\<lambda>k. of_nat (48 + k)) [0..<16]) \<and>
   (2::nat) < length [2, 0, 1, 0, 7, 0 :: byte] div 2 \<and>
   selected (request [2, 0, 1, 0, 7, 0] 2 2) (GetNumBuckets shard16) = [0, 1, 2] \<and>
   response_at shard16
     (bucket_data shard16 1 @ bucket_data shard16 0 @ map (\<lambda>k. of_nat (48 + k)) [0..<16]) 2 =
     xor_of_buckets shard16 [0, 1, 2]"
proof -
  have t: "test_reqs 16 = Inr [2, 0, 1, 0, 7, 0]" by code_simp
  have r: "Read shard16 [2, 0, 1, 0, 7, 0] 2 =
     Inr (bucket_data shard16 1 @ bucket_data shard16 0 @ map (\<lambda>k. of_nat (48 + k)) [0..<16])"
    by code_simp
  have i: "(2::nat) < length [2, 0, 1, 0, 7, 0 :: byte] div 2" by simp
  have s: "selected (request [2, 0, 1, 0, 7, 0] 2 2) (GetNumBuckets shard16) = [0, 1, 2]"
    by code_simp
  from Read_batch_isolation[OF r i] t r i s show ?thesis by simp
qed



end
